theory Spec2Isabelle
  imports Main
begin

section \<open>IMAP IDLE watcher (src/lib/idle.py)\<close>

text \<open>
  A shallow embedding of \<^verbatim>\<open>ImapIdleHandler\<close>. The handler talks to three collaborators
  (the connector, the IMAP client it returns, the callback handler); what they answer is
  given to the model as an environment, what the handler asks of them is recorded in the
  handler's state as a list of calls, in the order they are made.
\<close>

subsection \<open>Python values and exceptions\<close>

text \<open>
  The code tells two classes of exceptions apart: \<^verbatim>\<open>Exception\<close> (every failure of a
  collaborator, and the \<^verbatim>\<open>TypeError\<close> and \<^verbatim>\<open>IndexError\<close> of the interpreter) and
  \<^verbatim>\<open>KeyboardInterrupt\<close>, which is a \<^verbatim>\<open>BaseException\<close> and passes every
  \<^verbatim>\<open>except Exception\<close> clause. A call that may raise returns \<open>Inl\<close> the exception.
\<close>

datatype exn = Exception | KeyboardInterrupt

type_synonym 'a outcome = "exn + 'a"

text \<open>
  The values an IDLE response is made of. Bytes and text are character lists; a
  response as the IMAP client builds it is a list of tuples such as
  \<^verbatim>\<open>[(275, b'EXISTS'), (1, b'RECENT')]\<close>.
\<close>

datatype pyval =
    PNone
  | PInt int
  | PBytes string
  | PStr string
  | PTuple "pyval list"
  | PList "pyval list"

fun is_list :: "pyval \<Rightarrow> bool" where
  "is_list (PList xs) = True"
| "is_list v = False"

fun is_tuple :: "pyval \<Rightarrow> bool" where
  "is_tuple (PTuple xs) = True"
| "is_tuple v = False"

text \<open>\<^verbatim>\<open>len(v)\<close>: a \<^verbatim>\<open>TypeError\<close> on a value that has no length.\<close>

fun py_len :: "pyval \<Rightarrow> nat outcome" where
  "py_len (PList xs) = Inr (length xs)"
| "py_len (PTuple xs) = Inr (length xs)"
| "py_len (PBytes s) = Inr (length s)"
| "py_len (PStr s) = Inr (length s)"
| "py_len PNone = Inl Exception"
| "py_len (PInt i) = Inl Exception"

text \<open>
  \<^verbatim>\<open>v[i]\<close> for a literal index \<open>i \<ge> 0\<close>: an \<^verbatim>\<open>IndexError\<close> out of range, a
  \<^verbatim>\<open>TypeError\<close> on a value that cannot be indexed. Indexing bytes gives the byte as an
  integer, indexing text gives the character as text.
\<close>

fun py_getitem :: "pyval \<Rightarrow> nat \<Rightarrow> pyval outcome" where
  "py_getitem (PList xs) i = (if i < length xs then Inr (xs ! i) else Inl Exception)"
| "py_getitem (PTuple xs) i = (if i < length xs then Inr (xs ! i) else Inl Exception)"
| "py_getitem (PBytes s) i =
     (if i < length s then Inr (PInt (of_char (s ! i))) else Inl Exception)"
| "py_getitem (PStr s) i = (if i < length s then Inr (PStr [s ! i]) else Inl Exception)"
| "py_getitem PNone i = Inl Exception"
| "py_getitem (PInt n) i = Inl Exception"

text \<open>\<^verbatim>\<open>v == b'...'\<close>: only bytes with the same content are equal to a bytes literal.\<close>

fun eq_bytes :: "pyval \<Rightarrow> string \<Rightarrow> bool" where
  "eq_bytes (PBytes s) b = (s = b)"
| "eq_bytes v b = False"

text \<open>The truth value of a Python value, as \<^verbatim>\<open>if not v\<close> tests it.\<close>

fun truthy :: "pyval \<Rightarrow> bool" where
  "truthy PNone = False"
| "truthy (PInt i) = (i \<noteq> 0)"
| "truthy (PBytes s) = (s \<noteq> [])"
| "truthy (PStr s) = (s \<noteq> [])"
| "truthy (PTuple xs) = (xs \<noteq> [])"
| "truthy (PList xs) = (xs \<noteq> [])"

text \<open>Sequencing of calls that may raise: the first exception ends the computation.\<close>

definition and_then :: "'a outcome \<Rightarrow> ('a \<Rightarrow> 'b outcome) \<Rightarrow> 'b outcome" where
  "and_then m f = (case m of Inl e \<Rightarrow> Inl e | Inr x \<Rightarrow> f x)"

subsection \<open>The response parser\<close>

text \<open>
  \<^verbatim>\<open>__get_new_message_number(responses, ignoreRecentFlag)\<close>, lines 239 to 298. Every
  \<^verbatim>\<open>len\<close> and every subscript of the source is a call that may raise here; the result
  \<open>Inr PNone\<close> is the source's \<^verbatim>\<open>return None\<close>.
\<close>

definition get_new_message_number :: "pyval \<Rightarrow> bool \<Rightarrow> pyval outcome" where
  "get_new_message_number responses ignoreRecentFlag =
    (if ignoreRecentFlag = False then
       if \<not> is_list responses then Inr PNone
       else and_then (py_len responses) (\<lambda>n.
         if n < 2 then Inr PNone
         else and_then (py_getitem responses 0) (\<lambda>response1.
           if \<not> is_tuple response1 then Inr PNone
           else and_then (py_len response1) (\<lambda>n1.
             if n1 < 2 then Inr PNone
             else and_then (py_getitem responses 1) (\<lambda>response2.
               if \<not> is_tuple response2 then Inr PNone
               else and_then (py_len response2) (\<lambda>n2.
                 if n2 < 2 then Inr PNone
                 else and_then (py_getitem response1 1) (\<lambda>k1.
                      and_then (py_getitem response2 1) (\<lambda>k2.
                   if eq_bytes k1 ''EXISTS'' \<and> eq_bytes k2 ''RECENT''
                   then py_getitem response1 0
                   else if eq_bytes k2 ''EXISTS'' \<and> eq_bytes k1 ''RECENT''
                   then py_getitem response2 0
                   else Inr PNone)))))))
     else
       if \<not> is_list responses then Inr PNone
       else and_then (py_len responses) (\<lambda>n.
         if n < 1 then Inr PNone
         else and_then (py_getitem responses 0) (\<lambda>response1.
           if \<not> is_tuple response1 then Inr PNone
           else and_then (py_len response1) (\<lambda>n1.
             if n1 < 2 then Inr PNone
             else and_then (py_getitem response1 1) (\<lambda>k1.
               if eq_bytes k1 ''EXISTS'' then py_getitem response1 0
               else Inr PNone)))))"

text \<open>
  A raw notification as the protocol delivers it: a sequence of pairs of a numeric tag
  and a response keyword, here as the Python list of tuples the client hands over.
\<close>

definition notification :: "(int \<times> string) list \<Rightarrow> pyval" where
  "notification rs = PList (map (\<lambda>(tag, keyword). PTuple [PInt tag, PBytes keyword]) rs)"

subsection \<open>Configuration, state and recorded calls\<close>

text \<open>The tunables of the class (lines 34 to 56) and the matching mode of the instance.\<close>

record config =
  MAX_IMAP_ERROR_COUNT :: int
  SECONDS_TO_WAIT_AFTER_ERROR :: int
  SECONDS_TO_RECONNECT_AFTER :: int
  SECONDS_TO_WAIT_FOR_IDLE_RESPONSE :: int
  ignoreRecentFlag :: bool

text \<open>
  The handler opens two kinds of session with the same connector call: the long-lived
  one of \<^verbatim>\<open>__idle\<close> and the short-lived one of \<^verbatim>\<open>__get_message_envelope\<close>.
\<close>

datatype session = Primary | Secondary

datatype call =
    Connect session
  | Idle
  | IdleCheck int
  | IdleDone
  | Logout session
  | Fetch pyval
  | TriggerNewMessage pyval
  | Sleep int

text \<open>
  The mutable fields of the instance, and \<open>calls\<close>: every call made to a collaborator
  and every \<^verbatim>\<open>sleep\<close>, oldest first. Logging is not recorded.
\<close>

record handler =
  thread_stopped :: bool
  connected_at :: "int option"
  imap_error_count :: int
  calls :: "call list"

definition init :: handler where
  "init = \<lparr>thread_stopped = False, connected_at = None, imap_error_count = 0, calls = []\<rparr>"

definition does :: "call \<Rightarrow> handler \<Rightarrow> handler" where
  "does c s = s\<lparr>calls := calls s @ [c]\<rparr>"

text \<open>
  \<^verbatim>\<open>stop()\<close> runs on the controller's thread. The environment says, at each place where
  the worker reads the flag, whether the controller has called it by then.
\<close>

definition stop :: "handler \<Rightarrow> handler" where
  "stop s = s\<lparr>thread_stopped := True\<rparr>"

definition controller :: "bool \<Rightarrow> handler \<Rightarrow> handler" where
  "controller stop_called s = (if stop_called then stop s else s)"

text \<open>
  The block \<^verbatim>\<open>try: if client: client.logout() except Exception: pass\<close> of both
  \<^verbatim>\<open>finally\<close> clauses: an \<^verbatim>\<open>Exception\<close> of the logout is dropped, and the result
  is the exception that leaves the block, if any. The variable \<^verbatim>\<open>client\<close> is
  \<^verbatim>\<open>None\<close> or a client the connector returned, which is a true value.
\<close>

definition logout_quietly :: "session option \<Rightarrow> unit outcome \<Rightarrow> handler \<Rightarrow> exn option \<times> handler" where
  "logout_quietly client answer s =
    (case client of
       None \<Rightarrow> (None, s)
     | Some c \<Rightarrow>
         (case answer of
            Inl KeyboardInterrupt \<Rightarrow> (Some KeyboardInterrupt, does (Logout c) s)
          | Inl Exception \<Rightarrow> (None, does (Logout c) s)
          | Inr u \<Rightarrow> (None, does (Logout c) s)))"

subsection \<open>The envelope fetcher\<close>

text \<open>
  What the secondary session answers: the connect, the fetch (a dictionary from message
  numbers to dictionaries from keys such as \<^verbatim>\<open>b'ENVELOPE'\<close> to values) and the logout.
\<close>

record fetch_env =
  fe_connect :: "unit outcome"
  fe_fetch :: "(pyval \<rightharpoonup> (string \<rightharpoonup> pyval)) outcome"
  fe_logout :: "unit outcome"

text \<open>
  The \<^verbatim>\<open>try\<close> body of \<^verbatim>\<open>__get_message_envelope\<close>, lines 311 to 326: the client
  variable after it, what it returns or raises, and the state.
\<close>

definition fetch_body :: "fetch_env \<Rightarrow> pyval \<Rightarrow> handler \<Rightarrow> session option \<times> pyval outcome \<times> handler" where
  "fetch_body env message_number s =
    (case fe_connect env of
       Inl e \<Rightarrow> (None, Inl e, does (Connect Secondary) s)
     | Inr u \<Rightarrow>
         (Some Secondary,
          (case fe_fetch env of
             Inl e \<Rightarrow> Inl e
           | Inr result \<Rightarrow>
               (case result message_number of
                  None \<Rightarrow> Inr PNone
                | Some message_result \<Rightarrow>
                    (case message_result ''ENVELOPE'' of
                       None \<Rightarrow> Inr PNone
                     | Some envelope \<Rightarrow> Inr envelope))),
          does (Fetch message_number) (does (Connect Secondary) s)))"

text \<open>
  \<^verbatim>\<open>__get_message_envelope(message_number)\<close>, lines 300 to 338: the body, the clause
  \<^verbatim>\<open>except Exception: return None\<close>, then the \<^verbatim>\<open>finally\<close> clause.
\<close>

definition get_message_envelope :: "fetch_env \<Rightarrow> pyval \<Rightarrow> handler \<Rightarrow> pyval outcome \<times> handler" where
  "get_message_envelope env message_number s =
    (case fetch_body env message_number s of
       (client, body, s1) \<Rightarrow>
         (let caught = (case body of
                          Inl Exception \<Rightarrow> Inr PNone
                        | Inl KeyboardInterrupt \<Rightarrow> Inl KeyboardInterrupt
                        | Inr v \<Rightarrow> Inr v)
          in case logout_quietly client (fe_logout env) s1 of
               (Some e, s2) \<Rightarrow> (Inl e, s2)
             | (None, s2) \<Rightarrow> (caught, s2)))"

subsection \<open>One check cycle\<close>

record loop_env =
  le_idle_check :: "pyval outcome"
  le_fetch :: fetch_env
  le_trigger :: "unit outcome"

text \<open>\<^verbatim>\<open>__idle_loop(client)\<close>, lines 212 to 237.\<close>

definition idle_loop :: "config \<Rightarrow> loop_env \<Rightarrow> handler \<Rightarrow> unit outcome \<times> handler" where
  "idle_loop cfg env s =
    (let s1 = does (IdleCheck (SECONDS_TO_WAIT_FOR_IDLE_RESPONSE cfg)) s in
     case le_idle_check env of
       Inl e \<Rightarrow> (Inl e, s1)
     | Inr responses \<Rightarrow>
         if \<not> truthy responses then (Inr (), s1)
         else
           (case get_new_message_number responses (ignoreRecentFlag cfg) of
              Inl e \<Rightarrow> (Inl e, s1)
            | Inr message_nr \<Rightarrow>
                if \<not> truthy message_nr then (Inr (), s1)
                else
                  (case get_message_envelope (le_fetch env) message_nr s1 of
                     (Inl e, s2) \<Rightarrow> (Inl e, s2)
                   | (Inr envelope, s2) \<Rightarrow>
                       if \<not> truthy envelope then (Inr (), s2)
                       else
                         (case le_trigger env of
                            Inl KeyboardInterrupt \<Rightarrow>
                              (Inl KeyboardInterrupt, does (TriggerNewMessage envelope) s2)
                          | Inl Exception \<Rightarrow> (Inr (), does (TriggerNewMessage envelope) s2)
                          | Inr u \<Rightarrow> (Inr (), does (TriggerNewMessage envelope) s2)))))"

subsection \<open>The IDLE session\<close>

text \<open>
  One pass of the \<^verbatim>\<open>while True\<close> of \<^verbatim>\<open>__idle_client\<close>, lines 184 to 203, and how it
  leaves: to the next pass, by \<^verbatim>\<open>break\<close>, or by an exception. The environment of a pass
  is the controller, the clock and the answers of the check cycle. The subtraction of
  line 190 is a \<^verbatim>\<open>TypeError\<close> while \<open>connected_at\<close> is \<^verbatim>\<open>None\<close>.
\<close>

record cycle_env =
  cy_stop :: bool
  cy_time :: int
  cy_loop :: loop_env

datatype control = Continue | Break | Raise exn

definition checked :: "config \<Rightarrow> cycle_env \<Rightarrow> handler \<Rightarrow> control \<times> handler" where
  "checked cfg env s =
    (case idle_loop cfg (cy_loop env) s of
       (Inr u, s') \<Rightarrow> (Continue, s'\<lparr>imap_error_count := 0\<rparr>)
     | (Inl KeyboardInterrupt, s') \<Rightarrow> (Break, s'\<lparr>thread_stopped := True\<rparr>)
     | (Inl Exception, s') \<Rightarrow> (Raise Exception, s'))"

definition idle_cycle :: "config \<Rightarrow> cycle_env \<Rightarrow> handler \<Rightarrow> control \<times> handler" where
  "idle_cycle cfg env s0 =
    (let s = controller (cy_stop env) s0 in
     if thread_stopped s then (Break, s)
     else if SECONDS_TO_RECONNECT_AFTER cfg > 0 then
       (case connected_at s of
          None \<Rightarrow> (Raise Exception, s)
        | Some since \<Rightarrow>
            (let age = cy_time env - since in
             if age > SECONDS_TO_RECONNECT_AFTER cfg then (Break, s)
             else checked cfg env s))
     else checked cfg env s)"

text \<open>
  The loop over the passes the environment describes. \<open>None\<close>: the loop has not left
  after the last of them, the worker is still in IDLE mode.
\<close>

fun idle_while :: "config \<Rightarrow> cycle_env list \<Rightarrow> handler \<Rightarrow> unit outcome option \<times> handler" where
  "idle_while cfg [] s = (None, s)"
| "idle_while cfg (env # envs) s =
    (case idle_cycle cfg env s of
       (Continue, s') \<Rightarrow> idle_while cfg envs s'
     | (Break, s') \<Rightarrow> (Some (Inr ()), s')
     | (Raise e, s') \<Rightarrow> (Some (Inl e), s'))"

record client_env =
  cl_stop :: bool
  cl_time :: int
  cl_idle :: "unit outcome"
  cl_cycles :: "cycle_env list"
  cl_idle_done :: "unit outcome"

text \<open>
  \<^verbatim>\<open>__idle_client(client)\<close>, lines 161 to 210. An \<^verbatim>\<open>Exception\<close> of \<^verbatim>\<open>client.idle()\<close>
  is raised again as an \<^verbatim>\<open>Exception\<close>; the \<^verbatim>\<open>finally\<close> clause drops an
  \<^verbatim>\<open>Exception\<close> of \<^verbatim>\<open>client.idle_done()\<close>.
\<close>

definition idle_client :: "config \<Rightarrow> client_env \<Rightarrow> handler \<Rightarrow> unit outcome option \<times> handler" where
  "idle_client cfg env s0 =
    (let s = controller (cl_stop env) s0 in
     if thread_stopped s then (Some (Inr ()), s)
     else
       (let s1 = does Idle (s\<lparr>connected_at := Some (cl_time env)\<rparr>) in
        case cl_idle env of
          Inl e \<Rightarrow> (Some (Inl e), s1)
        | Inr u \<Rightarrow>
            (case idle_while cfg (cl_cycles env) s1 of
               (None, s2) \<Rightarrow> (None, s2)
             | (Some r, s2) \<Rightarrow>
                 (case cl_idle_done env of
                    Inl KeyboardInterrupt \<Rightarrow> (Some (Inl KeyboardInterrupt), does IdleDone s2)
                  | Inl Exception \<Rightarrow> (Some r, does IdleDone s2)
                  | Inr u \<Rightarrow> (Some r, does IdleDone s2)))))"

subsection \<open>The worker\<close>

text \<open>
  The error handling both \<^verbatim>\<open>except\<close> clauses of \<^verbatim>\<open>__idle\<close> share (lines 123 to 133
  and 141 to 151): count the error and say whether the thread is left, else wait.
\<close>

definition count_error :: "config \<Rightarrow> handler \<Rightarrow> bool \<times> handler" where
  "count_error cfg s =
    (if MAX_IMAP_ERROR_COUNT cfg > 0 then
       (let s' = s\<lparr>imap_error_count := imap_error_count s + 1\<rparr>
        in (imap_error_count s' > MAX_IMAP_ERROR_COUNT cfg, s'))
     else (False, s))"

definition wait_after_error :: "config \<Rightarrow> handler \<Rightarrow> handler" where
  "wait_after_error cfg s =
    (if SECONDS_TO_WAIT_AFTER_ERROR cfg > 0
     then does (Sleep (SECONDS_TO_WAIT_AFTER_ERROR cfg)) s else s)"

text \<open>
  How the thread function ends: by the \<^verbatim>\<open>break\<close> of line 112, by the \<^verbatim>\<open>return\<close> of
  lines 127 and 145, or by an exception nothing catches. One pass of its loop goes to the
  next pass, ends the thread, or stays in IDLE mode when the environment describes no
  further check cycle.
\<close>

datatype ending = Stopped | GaveUp | Uncaught exn

datatype progress = Restart | Exit ending | Waiting

definition on_error :: "config \<Rightarrow> handler \<Rightarrow> progress \<times> handler" where
  "on_error cfg s =
    (case count_error cfg s of
       (True, s') \<Rightarrow> (Exit GaveUp, s')
     | (False, s') \<Rightarrow> (Restart, wait_after_error cfg s'))"

record attempt_env =
  at_stop :: bool
  at_connect :: "unit outcome"
  at_client :: client_env
  at_logout :: "unit outcome"

text \<open>
  One pass of the \<^verbatim>\<open>while True\<close> of \<^verbatim>\<open>__idle\<close>, lines 110 to 159. The second
  \<^verbatim>\<open>try\<close> has the \<^verbatim>\<open>finally\<close> clause, which runs after the \<^verbatim>\<open>except\<close> clause has
  counted and slept; the first has none.
\<close>

definition idle_attempt :: "config \<Rightarrow> attempt_env \<Rightarrow> handler \<Rightarrow> progress \<times> handler" where
  "idle_attempt cfg env s0 =
    (let s = controller (at_stop env) s0 in
     if thread_stopped s then (Exit Stopped, s)
     else
       (case at_connect env of
          Inl KeyboardInterrupt \<Rightarrow> (Exit (Uncaught KeyboardInterrupt), does (Connect Primary) s)
        | Inl Exception \<Rightarrow> on_error cfg (does (Connect Primary) s)
        | Inr u \<Rightarrow>
            (case idle_client cfg (at_client env) (does (Connect Primary) s) of
               (None, s2) \<Rightarrow> (Waiting, s2)
             | (Some r, s2) \<Rightarrow>
                 (case (case r of
                          Inr u \<Rightarrow> (Restart, s2)
                        | Inl Exception \<Rightarrow> on_error cfg s2
                        | Inl KeyboardInterrupt \<Rightarrow> (Exit (Uncaught KeyboardInterrupt), s2)) of
                    (p, s3) \<Rightarrow>
                      (case logout_quietly (Some Primary) (at_logout env) s3 of
                         (Some e, s4) \<Rightarrow> (Exit (Uncaught e), s4)
                       | (None, s4) \<Rightarrow> (p, s4))))))"

text \<open>
  \<^verbatim>\<open>__idle()\<close>, lines 101 to 159, over the passes the environment describes. \<open>None\<close>:
  the thread has not ended after the last of them.
\<close>

fun idle :: "config \<Rightarrow> attempt_env list \<Rightarrow> handler \<Rightarrow> ending option \<times> handler" where
  "idle cfg [] s = (None, s)"
| "idle cfg (env # envs) s =
    (case idle_attempt cfg env s of
       (Restart, s') \<Rightarrow> idle cfg envs s'
     | (Exit e, s') \<Rightarrow> (Some e, s')
     | (Waiting, s') \<Rightarrow> (None, s'))"

subsection \<open>Environments\<close>

text \<open>
  The class defaults of lines 34 to 56 and of the constructor (strict matching).
\<close>

definition defaults :: config where
  "defaults = \<lparr>MAX_IMAP_ERROR_COUNT = 0, SECONDS_TO_WAIT_AFTER_ERROR = 60,
     SECONDS_TO_RECONNECT_AFTER = 600, SECONDS_TO_WAIT_FOR_IDLE_RESPONSE = 15,
     ignoreRecentFlag = False\<rparr>"

text \<open>
  The test of lines 189 to 191 on a session that entered IDLE mode at \<open>since\<close>, read at
  \<open>now\<close>.
\<close>

definition overdue :: "config \<Rightarrow> int \<Rightarrow> int \<Rightarrow> bool" where
  "overdue cfg since now \<longleftrightarrow>
     0 < SECONDS_TO_RECONNECT_AFTER cfg \<and> SECONDS_TO_RECONNECT_AFTER cfg < now - since"

text \<open>\<open>extends s' s\<close>: the calls of \<open>s'\<close> are those of \<open>s\<close> and later ones.\<close>

definition extends :: "handler \<Rightarrow> handler \<Rightarrow> bool" where
  "extends s' s \<longleftrightarrow> (\<exists>rest. calls s' = calls s @ rest)"

text \<open>
  The two failures \<^verbatim>\<open>__idle\<close> counts, as environments of one pass in which the
  controller has not called \<^verbatim>\<open>stop()\<close>: the connector raises an \<^verbatim>\<open>Exception\<close>; or
  the session is opened and \<^verbatim>\<open>__idle_client\<close> raises one before any check cycle has
  completed, because \<^verbatim>\<open>client.idle()\<close> fails or because the first wait for a
  notification fails.
\<close>

definition connect_fails :: "attempt_env \<Rightarrow> bool" where
  "connect_fails env \<longleftrightarrow> \<not> at_stop env \<and> at_connect env = Inl Exception"

definition first_check_fails :: "config \<Rightarrow> client_env \<Rightarrow> bool" where
  "first_check_fails cfg env \<longleftrightarrow>
    (case cl_cycles env of
       [] \<Rightarrow> False
     | c # cs \<Rightarrow>
         \<not> cy_stop c \<and> \<not> overdue cfg (cl_time env) (cy_time c) \<and>
         le_idle_check (cy_loop c) = Inl Exception)"

definition idle_fails :: "config \<Rightarrow> attempt_env \<Rightarrow> bool" where
  "idle_fails cfg env \<longleftrightarrow>
    \<not> at_stop env \<and> at_connect env = Inr () \<and> \<not> cl_stop (at_client env) \<and>
    at_logout env \<noteq> Inl KeyboardInterrupt \<and>
    (cl_idle (at_client env) = Inl Exception \<or>
     cl_idle (at_client env) = Inr () \<and> first_check_fails cfg (at_client env) \<and>
     cl_idle_done (at_client env) \<noteq> Inl KeyboardInterrupt)"

text \<open>
  Some environments to run the model on: a secondary session that cannot be opened and
  one that serves an envelope for one message number; a wait that times out with no
  response; a primary session that cannot be opened, one that cannot enter IDLE mode,
  and one that enters IDLE mode at a given time and sees nothing at each of the given
  times.
\<close>

definition refused :: fetch_env where
  "refused = \<lparr>fe_connect = Inl Exception, fe_fetch = Inl Exception, fe_logout = Inr ()\<rparr>"

definition serves :: "pyval \<Rightarrow> pyval \<Rightarrow> fetch_env" where
  "serves n envelope =
     \<lparr>fe_connect = Inr (), fe_fetch = Inr [n \<mapsto> [''ENVELOPE'' \<mapsto> envelope]],
      fe_logout = Inr ()\<rparr>"

definition timeout :: loop_env where
  "timeout = \<lparr>le_idle_check = Inr (PList []), le_fetch = refused, le_trigger = Inr ()\<rparr>"

definition quiet_check :: "int \<Rightarrow> cycle_env" where
  "quiet_check now = \<lparr>cy_stop = False, cy_time = now, cy_loop = timeout\<rparr>"

definition no_session :: client_env where
  "no_session = \<lparr>cl_stop = False, cl_time = 0, cl_idle = Inl Exception, cl_cycles = [],
     cl_idle_done = Inr ()\<rparr>"

definition connect_refused :: attempt_env where
  "connect_refused = \<lparr>at_stop = False, at_connect = Inl Exception, at_client = no_session,
     at_logout = Inr ()\<rparr>"

definition idle_refused :: attempt_env where
  "idle_refused = \<lparr>at_stop = False, at_connect = Inr (), at_client = no_session,
     at_logout = Inr ()\<rparr>"

definition quiet_session :: "int \<Rightarrow> int list \<Rightarrow> attempt_env" where
  "quiet_session entered moments =
     \<lparr>at_stop = False, at_connect = Inr (),
      at_client = \<lparr>cl_stop = False, cl_time = entered, cl_idle = Inr (),
                    cl_cycles = map quiet_check moments, cl_idle_done = Inr ()\<rparr>,
      at_logout = Inr ()\<rparr>"

section \<open>Properties\<close>

subsection \<open>The parser\<close>

lemma parser_total: "\<exists>r. get_new_message_number responses flag = Inr r"
proof (cases responses)
  case (PList xs)
  show ?thesis
  proof (cases flag)
    case True
    show ?thesis
    proof (cases xs)
      case Nil
      with PList True show ?thesis by (simp add: get_new_message_number_def and_then_def)
    next
      case (Cons a as)
      show ?thesis
      proof (cases a)
        case (PTuple ts)
        with PList True Cons show ?thesis
          by (simp add: get_new_message_number_def and_then_def)
      qed (use PList True Cons in \<open>simp_all add: get_new_message_number_def and_then_def\<close>)
    qed
  next
    case False
    show ?thesis
    proof (cases xs)
      case Nil
      with PList False show ?thesis by (simp add: get_new_message_number_def and_then_def)
    next
      case (Cons a as)
      show ?thesis
      proof (cases as)
        case Nil
        with PList False Cons show ?thesis by (simp add: get_new_message_number_def and_then_def)
      next
        case (Cons b bs)
        with PList False \<open>xs = a # as\<close> show ?thesis
          by (cases a; cases b) (simp_all add: get_new_message_number_def and_then_def)
      qed
    qed
  qed
qed (simp_all add: get_new_message_number_def)

lemma strict_general:
  "get_new_message_number (notification rs) False =
     Inr (if 2 \<le> length rs \<and> snd (rs ! 0) = ''EXISTS'' \<and> snd (rs ! 1) = ''RECENT''
          then PInt (fst (rs ! 0))
          else if 2 \<le> length rs \<and> snd (rs ! 1) = ''EXISTS'' \<and> snd (rs ! 0) = ''RECENT''
          then PInt (fst (rs ! 1))
          else PNone)"
proof (cases rs)
  case Nil
  then show ?thesis by (simp add: get_new_message_number_def notification_def and_then_def)
next
  case (Cons a as)
  show ?thesis
  proof (cases as)
    case Nil
    with Cons show ?thesis by (simp add: get_new_message_number_def notification_def and_then_def)
  next
    case (Cons b bs)
    with \<open>rs = a # as\<close> show ?thesis
      by (cases a; cases b) (simp add: get_new_message_number_def notification_def and_then_def)
  qed
qed

lemma relaxed_general:
  "get_new_message_number (notification rs) True =
     Inr (if 1 \<le> length rs \<and> snd (rs ! 0) = ''EXISTS'' then PInt (fst (rs ! 0)) else PNone)"
proof (cases rs)
  case Nil
  then show ?thesis by (simp add: get_new_message_number_def notification_def and_then_def)
next
  case (Cons a as)
  then show ?thesis
    by (cases a) (simp add: get_new_message_number_def notification_def and_then_def)
qed

subsection \<open>What a check cycle leaves unchanged\<close>

text \<open>
  The envelope fetcher and the check cycle change nothing of the handler but the list of
  calls; a pass of the IDLE loop changes the counter only by resetting it.
\<close>

lemma does_fields [simp]:
  "thread_stopped (does c s) = thread_stopped s"
  "connected_at (does c s) = connected_at s"
  "imap_error_count (does c s) = imap_error_count s"
  "calls (does c s) = calls s @ [c]"
  by (simp_all add: does_def)

lemma controller_simps [simp]:
  "controller False s = s"
  "thread_stopped (controller b s) = (b \<or> thread_stopped s)"
  "connected_at (controller b s) = connected_at s"
  "imap_error_count (controller b s) = imap_error_count s"
  "calls (controller b s) = calls s"
  by (simp_all add: controller_def stop_def)

lemma logout_quietly_fields:
  "thread_stopped (snd (logout_quietly c a s)) = thread_stopped s"
  "connected_at (snd (logout_quietly c a s)) = connected_at s"
  "imap_error_count (snd (logout_quietly c a s)) = imap_error_count s"
  by (simp_all add: logout_quietly_def split: option.splits sum.splits exn.splits)

lemma fetch_body_fields:
  "thread_stopped (snd (snd (fetch_body env n s))) = thread_stopped s"
  "connected_at (snd (snd (fetch_body env n s))) = connected_at s"
  "imap_error_count (snd (snd (fetch_body env n s))) = imap_error_count s"
  by (simp_all add: fetch_body_def split: sum.splits)

lemma get_message_envelope_fields:
  "thread_stopped (snd (get_message_envelope env n s)) = thread_stopped s"
  "connected_at (snd (get_message_envelope env n s)) = connected_at s"
  "imap_error_count (snd (get_message_envelope env n s)) = imap_error_count s"
  unfolding get_message_envelope_def
  by (cases "fetch_body env n s";
      cases "logout_quietly (fst (fetch_body env n s)) (fe_logout env)
               (snd (snd (fetch_body env n s)))";
      use fetch_body_fields[of env n s]
        logout_quietly_fields[of "fst (fetch_body env n s)" "fe_logout env"
          "snd (snd (fetch_body env n s))"] in
      \<open>simp split: option.splits\<close>)+

lemma get_message_envelope_no_exception:
  "fst (get_message_envelope env n s) \<noteq> Inl Exception"
  unfolding get_message_envelope_def
  by (cases "fetch_body env n s")
     (auto simp: logout_quietly_def split: option.splits sum.splits exn.splits prod.splits)

lemma get_message_envelope_calls:
  "fe_connect env = Inr u \<Longrightarrow>
   calls (snd (get_message_envelope env n s)) =
     calls s @ [Connect Secondary, Fetch n, Logout Secondary]"
  by (simp add: get_message_envelope_def fetch_body_def logout_quietly_def
      split: sum.splits exn.splits)

lemma get_message_envelope_failure:
  "fe_connect env = Inl Exception \<or>
   fe_connect env = Inr () \<and> fe_fetch env = Inl Exception \<and>
   fe_logout env \<noteq> Inl KeyboardInterrupt \<Longrightarrow>
   fst (get_message_envelope env n s) = Inr PNone"
  by (auto simp add: get_message_envelope_def fetch_body_def logout_quietly_def
      split: sum.splits exn.splits)

lemma idle_loop_fields:
  "thread_stopped (snd (idle_loop cfg env s)) = thread_stopped s"
  "connected_at (snd (idle_loop cfg env s)) = connected_at s"
  "imap_error_count (snd (idle_loop cfg env s)) = imap_error_count s"
  unfolding idle_loop_def Let_def
  using get_message_envelope_fields[of "le_fetch env" _
      "does (IdleCheck (SECONDS_TO_WAIT_FOR_IDLE_RESPONSE cfg)) s"]
  by (auto split: sum.splits exn.splits prod.splits) (metis snd_conv)+

lemma get_message_envelope_returns:
  assumes "fe_connect env \<noteq> Inl KeyboardInterrupt"
    and "fe_fetch env \<noteq> Inl KeyboardInterrupt"
    and "fe_logout env \<noteq> Inl KeyboardInterrupt"
  shows "\<exists>v. fst (get_message_envelope env n s) = Inr v"
  using assms
  by (auto simp: get_message_envelope_def fetch_body_def logout_quietly_def
        split: sum.splits exn.splits option.splits)

lemma idle_loop_returns:
  assumes "le_idle_check env = Inr responses"
    and "fe_connect (le_fetch env) \<noteq> Inl KeyboardInterrupt"
    and "fe_fetch (le_fetch env) \<noteq> Inl KeyboardInterrupt"
    and "fe_logout (le_fetch env) \<noteq> Inl KeyboardInterrupt"
    and "le_trigger env \<noteq> Inl KeyboardInterrupt"
  shows "fst (idle_loop cfg env s) = Inr ()"
proof -
  obtain r where r: "get_new_message_number responses (ignoreRecentFlag cfg) = Inr r"
    using parser_total by blast
  obtain v where v: "fst (get_message_envelope (le_fetch env) r
      (does (IdleCheck (SECONDS_TO_WAIT_FOR_IDLE_RESPONSE cfg)) s)) = Inr v"
    using get_message_envelope_returns[OF assms(2-4)] by blast
  show ?thesis
    using assms(1,5) r v
    unfolding idle_loop_def Let_def
    by (cases "get_message_envelope (le_fetch env) r
      (does (IdleCheck (SECONDS_TO_WAIT_FOR_IDLE_RESPONSE cfg)) s)")
       (simp split: sum.splits exn.splits)
qed

lemma checked_fields:
  "connected_at (snd (checked cfg env s)) = connected_at s"
  "fst (checked cfg env s) = Continue \<Longrightarrow> thread_stopped (snd (checked cfg env s)) = thread_stopped s"
  "fst (checked cfg env s) = Continue \<Longrightarrow> imap_error_count (snd (checked cfg env s)) = 0"
  "0 \<le> imap_error_count s \<Longrightarrow> imap_error_count (snd (checked cfg env s)) \<le> imap_error_count s"
  "0 \<le> imap_error_count s \<Longrightarrow> 0 \<le> imap_error_count (snd (checked cfg env s))"
  unfolding checked_def
  using idle_loop_fields[where cfg=cfg and env="cy_loop env" and s=s]
  by (auto split: prod.splits sum.splits exn.splits)

lemma idle_cycle_fields:
  "connected_at (snd (idle_cycle cfg env s)) = connected_at s"
  "fst (idle_cycle cfg env s) = Continue \<Longrightarrow> thread_stopped (snd (idle_cycle cfg env s)) = thread_stopped s"
  "fst (idle_cycle cfg env s) = Continue \<Longrightarrow> imap_error_count (snd (idle_cycle cfg env s)) = 0"
  "0 \<le> imap_error_count s \<Longrightarrow> imap_error_count (snd (idle_cycle cfg env s)) \<le> imap_error_count s"
  "0 \<le> imap_error_count s \<Longrightarrow> 0 \<le> imap_error_count (snd (idle_cycle cfg env s))"
  unfolding idle_cycle_def Let_def
  using checked_fields[where cfg=cfg and env=env and s="controller (cy_stop env) s"]
  by (auto split: option.splits if_splits)

subsection \<open>Calls are only added\<close>

text \<open>Every function of the handler keeps the calls made so far and adds its own.\<close>

lemma extends_refl [simp]: "extends s s"
  by (simp add: extends_def)

lemma extends_trans: "extends s'' s' \<Longrightarrow> extends s' s \<Longrightarrow> extends s'' s"
  by (auto simp: extends_def)

lemma extends_does [simp]: "extends (does c s) s"
  by (simp add: extends_def)

lemma extends_does_left: "extends s' s \<Longrightarrow> extends (does c s') s"
  by (auto simp: extends_def)

lemma extends_update [simp]:
  "extends (s'\<lparr>imap_error_count := n\<rparr>) s = extends s' s"
  "extends (s'\<lparr>thread_stopped := b\<rparr>) s = extends s' s"
  "extends (s'\<lparr>connected_at := t\<rparr>) s = extends s' s"
  "extends s' (s\<lparr>imap_error_count := n\<rparr>) = extends s' s"
  "extends s' (s\<lparr>thread_stopped := b\<rparr>) = extends s' s"
  "extends s' (s\<lparr>connected_at := t\<rparr>) = extends s' s"
  "extends (controller b s') s = extends s' s"
  "extends s' (controller b s) = extends s' s"
  by (simp_all add: extends_def controller_def stop_def)

lemma logout_quietly_extends: "extends (snd (logout_quietly c a s)) s"
  by (simp add: logout_quietly_def split: option.splits sum.splits exn.splits)

lemma get_message_envelope_extends: "extends (snd (get_message_envelope env n s)) s"
  by (simp add: get_message_envelope_def fetch_body_def logout_quietly_def extends_def
      split: option.splits sum.splits exn.splits)

lemma idle_loop_extends: "extends (snd (idle_loop cfg env s)) s"
proof -
  have g: "extends (snd (get_message_envelope (le_fetch env) n (does c s))) s" for n c
    using get_message_envelope_extends extends_does extends_trans by blast
  show ?thesis
    unfolding idle_loop_def Let_def
    by (auto split: sum.splits exn.splits prod.splits intro!: extends_does_left)
       (metis g snd_conv)+
qed

lemma checked_extends: "extends (snd (checked cfg env s)) s"
  using idle_loop_extends[of cfg "cy_loop env" s]
  by (auto simp: checked_def split: prod.splits sum.splits exn.splits)

lemma idle_cycle_extends: "extends (snd (idle_cycle cfg env s)) s"
  using checked_extends[of cfg env "controller (cy_stop env) s"]
  by (auto simp: idle_cycle_def Let_def split: option.splits)

lemma idle_while_extends: "extends (snd (idle_while cfg envs s)) s"
proof (induction envs arbitrary: s)
  case Nil
  show ?case by simp
next
  case (Cons env envs)
  show ?case
    using idle_cycle_extends[of cfg env s] Cons.IH[of "snd (idle_cycle cfg env s)"]
    by (cases "idle_cycle cfg env s") (auto split: control.splits intro: extends_trans)
qed

lemma idle_client_extends: "extends (snd (idle_client cfg env s)) s"
proof -
  have w: "extends (snd (idle_while cfg (cl_cycles env) (does Idle (controller (cl_stop env) s\<lparr>connected_at := Some (cl_time env)\<rparr>)))) s"
    (is "extends (snd (idle_while _ _ ?s1)) s")
    using idle_while_extends[of cfg "cl_cycles env" ?s1]
    by (rule extends_trans) (simp add: extends_does_left)
  show ?thesis
    unfolding idle_client_def Let_def
    using w
    by (cases "idle_while cfg (cl_cycles env) (does Idle (controller (cl_stop env) s\<lparr>connected_at := Some (cl_time env)\<rparr>))")
       (auto split: sum.splits exn.splits option.splits intro: extends_does_left)
qed

lemma idle_while_connected_at:
  "connected_at (snd (idle_while cfg envs s)) = connected_at s"
proof (induction envs arbitrary: s)
  case Nil
  show ?case by simp
next
  case (Cons env envs)
  show ?case
    using idle_cycle_fields(1)[of cfg env s] Cons.IH[of "snd (idle_cycle cfg env s)"]
    by (cases "idle_cycle cfg env s") (auto split: control.splits)
qed

lemma idle_while_waiting:
  "fst (idle_while cfg envs s) = None \<Longrightarrow>
     thread_stopped (snd (idle_while cfg envs s)) = thread_stopped s \<and>
     (envs \<noteq> [] \<longrightarrow> imap_error_count (snd (idle_while cfg envs s)) = 0)"
proof (induction envs arbitrary: s)
  case Nil
  show ?case by simp
next
  case (Cons env envs)
  obtain c s' where c: "idle_cycle cfg env s = (c, s')"
    by (cases "idle_cycle cfg env s")
  with Cons.prems have [simp]: "c = Continue"
    by (cases c) auto
  from c Cons.prems have w: "fst (idle_while cfg envs s') = None"
    by simp
  from c idle_cycle_fields(2,3)[of cfg env s]
  have s': "thread_stopped s' = thread_stopped s" "imap_error_count s' = 0"
    by simp_all
  show ?case
    using Cons.IH[OF w] c s' by (cases envs) auto
qed

lemma idle_while_count:
  "0 \<le> imap_error_count s \<Longrightarrow>
     0 \<le> imap_error_count (snd (idle_while cfg envs s)) \<and>
     imap_error_count (snd (idle_while cfg envs s)) \<le> imap_error_count s"
proof (induction envs arbitrary: s)
  case Nil
  then show ?case by simp
next
  case (Cons env envs)
  obtain c s' where c: "idle_cycle cfg env s = (c, s')"
    by (cases "idle_cycle cfg env s")
  from c idle_cycle_fields(4,5)[of s cfg env] Cons.prems
  have s': "0 \<le> imap_error_count s'" "imap_error_count s' \<le> imap_error_count s"
    by simp_all
  show ?case
    using Cons.IH[OF s'(1)] c s' by (cases c) auto
qed

lemma idle_while_append:
  "idle_while cfg (pre @ post) s =
    (case idle_while cfg pre s of (None, s') \<Rightarrow> idle_while cfg post s' | (Some r, s') \<Rightarrow> (Some r, s'))"
  by (induction pre arbitrary: s) (auto split: prod.splits control.splits option.splits)

lemma idle_client_count:
  assumes "0 \<le> imap_error_count s"
  shows "0 \<le> imap_error_count (snd (idle_client cfg env s)) \<and>
     imap_error_count (snd (idle_client cfg env s)) \<le> imap_error_count s"
proof -
  let ?s1 = "does Idle (controller (cl_stop env) s\<lparr>connected_at := Some (cl_time env)\<rparr>)"
  have "0 \<le> imap_error_count ?s1" using assms by simp
  from idle_while_count[OF this, of cfg "cl_cycles env"] assms
  show ?thesis
    unfolding idle_client_def Let_def
    by (cases "idle_while cfg (cl_cycles env) ?s1")
       (auto split: sum.splits exn.splits option.splits)
qed

subsection \<open>Counted failures\<close>

text \<open>
  A failing pass of the worker's loop counts one error when a budget is configured, and
  ends the thread when the counter then exceeds the budget; a run of failing passes is
  followed by induction on the environment.
\<close>

lemma wait_after_error_fields [simp]:
  "thread_stopped (wait_after_error cfg s) = thread_stopped s"
  "connected_at (wait_after_error cfg s) = connected_at s"
  "imap_error_count (wait_after_error cfg s) = imap_error_count s"
  by (simp_all add: wait_after_error_def)

lemma on_error_fields:
  "thread_stopped (snd (on_error cfg s)) = thread_stopped s"
  "imap_error_count (snd (on_error cfg s)) =
     imap_error_count s + (if 0 < MAX_IMAP_ERROR_COUNT cfg then 1 else 0)"
  "fst (on_error cfg s) =
     (if 0 < MAX_IMAP_ERROR_COUNT cfg \<and> MAX_IMAP_ERROR_COUNT cfg < imap_error_count s + 1
      then Exit GaveUp else Restart)"
  by (simp_all add: on_error_def count_error_def Let_def split: bool.splits)

lemma idle_loop_check_fails:
  "le_idle_check env = Inl e \<Longrightarrow>
   idle_loop cfg env s = (Inl e, does (IdleCheck (SECONDS_TO_WAIT_FOR_IDLE_RESPONSE cfg)) s)"
  by (simp add: idle_loop_def)

lemma idle_client_fails:
  assumes "\<not> cl_stop env" "\<not> thread_stopped s"
    and "cl_idle env = Inl Exception \<or>
         cl_idle env = Inr () \<and> first_check_fails cfg env \<and> cl_idle_done env \<noteq> Inl KeyboardInterrupt"
  shows "\<exists>s'. idle_client cfg env s = (Some (Inl Exception), s') \<and>
           \<not> thread_stopped s' \<and> imap_error_count s' = imap_error_count s"
  using assms(3)
proof
  assume "cl_idle env = Inl Exception"
  with assms(1,2) show ?thesis
    by (simp add: idle_client_def)
next
  assume a: "cl_idle env = Inr () \<and> first_check_fails cfg env \<and> cl_idle_done env \<noteq> Inl KeyboardInterrupt"
  then obtain c cs where cs: "cl_cycles env = c # cs" "\<not> cy_stop c"
      "\<not> (0 < SECONDS_TO_RECONNECT_AFTER cfg \<and> SECONDS_TO_RECONNECT_AFTER cfg < cy_time c - cl_time env)"
      "le_idle_check (cy_loop c) = Inl Exception"
    by (auto simp: first_check_fails_def overdue_def split: list.splits)
  let ?s1 = "does Idle (s\<lparr>connected_at := Some (cl_time env)\<rparr>)"
  have "idle_cycle cfg c ?s1 = (Raise Exception, does (IdleCheck (SECONDS_TO_WAIT_FOR_IDLE_RESPONSE cfg)) ?s1)"
    using cs(2-4) assms(2)
    by (simp add: idle_cycle_def Let_def checked_def idle_loop_check_fails)
  then have "idle_while cfg (cl_cycles env) ?s1 =
      (Some (Inl Exception), does (IdleCheck (SECONDS_TO_WAIT_FOR_IDLE_RESPONSE cfg)) ?s1)"
    by (simp add: cs(1))
  with a assms(1,2) show ?thesis
    by (auto simp: idle_client_def split: sum.splits exn.splits)
qed

lemma idle_attempt_failure:
  assumes "connect_fails env \<or> idle_fails cfg env" and "\<not> thread_stopped s"
  shows "\<exists>s'. idle_attempt cfg env s =
            (if 0 < MAX_IMAP_ERROR_COUNT cfg \<and> MAX_IMAP_ERROR_COUNT cfg < imap_error_count s + 1
             then Exit GaveUp else Restart, s') \<and>
           \<not> thread_stopped s' \<and>
           imap_error_count s' = imap_error_count s + (if 0 < MAX_IMAP_ERROR_COUNT cfg then 1 else 0)"
  using assms(1)
proof
  assume "connect_fails env"
  with assms(2) have "idle_attempt cfg env s = on_error cfg (does (Connect Primary) s)"
    by (simp add: connect_fails_def idle_attempt_def)
  then show ?thesis
    using on_error_fields[of cfg "does (Connect Primary) s"] assms(2)
    by (cases "on_error cfg (does (Connect Primary) s)") simp
next
  assume f: "idle_fails cfg env"
  then obtain s2 where s2: "idle_client cfg (at_client env) (does (Connect Primary) s) = (Some (Inl Exception), s2)"
      "\<not> thread_stopped s2" "imap_error_count s2 = imap_error_count s"
    using idle_client_fails[of "at_client env" "does (Connect Primary) s" cfg] assms(2)
    by (auto simp: idle_fails_def)
  obtain p s3 where s3: "on_error cfg s2 = (p, s3)"
    by (cases "on_error cfg s2")
  with on_error_fields[of cfg s2] s2 have p: "\<not> thread_stopped s3"
     "imap_error_count s3 = imap_error_count s + (if 0 < MAX_IMAP_ERROR_COUNT cfg then 1 else 0)"
     "p = (if 0 < MAX_IMAP_ERROR_COUNT cfg \<and> MAX_IMAP_ERROR_COUNT cfg < imap_error_count s + 1
      then Exit GaveUp else Restart)"
    by simp_all
  from f have "idle_attempt cfg env s = (p, does (Logout Primary) s3)"
    using assms(2) s2(1) s3
    by (auto simp: idle_fails_def idle_attempt_def logout_quietly_def split: sum.splits exn.splits)
  with p show ?thesis by simp
qed

lemma gives_up_after:
  assumes "\<forall>env \<in> set envs. connect_fails env \<or> idle_fails cfg env"
    and "\<not> thread_stopped s"
    and "0 < MAX_IMAP_ERROR_COUNT cfg"
    and "0 \<le> imap_error_count s" "imap_error_count s \<le> MAX_IMAP_ERROR_COUNT cfg"
  shows "fst (idle cfg envs s) =
           (if nat (MAX_IMAP_ERROR_COUNT cfg - imap_error_count s) < length envs then Some GaveUp else None) \<and>
         idle cfg envs s = idle cfg (take (nat (MAX_IMAP_ERROR_COUNT cfg - imap_error_count s) + 1) envs) s"
  using assms(1,2,4,5)
proof (induction envs arbitrary: s)
  case Nil
  show ?case by simp
next
  case (Cons env envs)
  from Cons.prems(1) have "connect_fails env \<or> idle_fails cfg env" by simp
  from idle_attempt_failure[OF this Cons.prems(2)] assms(3)
  obtain s' where s': "idle_attempt cfg env s =
            (if MAX_IMAP_ERROR_COUNT cfg < imap_error_count s + 1 then Exit GaveUp else Restart, s')"
      "\<not> thread_stopped s'" "imap_error_count s' = imap_error_count s + 1"
    by auto
  show ?case
  proof (cases "MAX_IMAP_ERROR_COUNT cfg < imap_error_count s + 1")
    case True
    then have a: "idle_attempt cfg env s = (Exit GaveUp, s')"
      using s'(1) by simp
    have m: "nat (MAX_IMAP_ERROR_COUNT cfg - imap_error_count s) = 0"
      using True Cons.prems(4) by linarith
    show ?thesis
      unfolding m by (simp add: a)
  next
    case False
    then have le: "imap_error_count s' \<le> MAX_IMAP_ERROR_COUNT cfg" "0 \<le> imap_error_count s'"
      using s'(3) Cons.prems(3) by simp_all
    define k where "k = nat (MAX_IMAP_ERROR_COUNT cfg - imap_error_count s')"
    have n: "nat (MAX_IMAP_ERROR_COUNT cfg - imap_error_count s) = Suc k"
      unfolding k_def using False s'(3) by linarith
    from Cons.prems(1) have rest: "\<forall>env \<in> set envs. connect_fails env \<or> idle_fails cfg env"
      by simp
    have step: "idle cfg (env # envs) s = idle cfg envs s'"
      using s'(1) False by simp
    have short: "idle cfg (env # take (k + 1) envs) s = idle cfg (take (k + 1) envs) s'"
      using s'(1) False by simp
    note IH = Cons.IH[OF rest s'(2) le(2) le(1), folded k_def]
    note ih = IH[THEN conjunct1] IH[THEN conjunct2]
    have A: "fst (idle cfg (env # envs) s) = (if Suc k < length (env # envs) then Some GaveUp else None)"
      unfolding step ih(1) by simp
    have "idle cfg (take (Suc k + 1) (env # envs)) s = idle cfg (env # take (k + 1) envs) s"
      by simp
    also have "\<dots> = idle cfg (take (k + 1) envs) s'"
      by (rule short)
    also have "\<dots> = idle cfg envs s'"
      by (rule ih(2)[symmetric])
    also have "\<dots> = idle cfg (env # envs) s"
      by (rule step[symmetric])
    finally have B: "idle cfg (env # envs) s = idle cfg (take (Suc k + 1) (env # envs)) s"
      by (rule sym)
    from A B show ?thesis
      unfolding n by blast
  qed
qed

lemma never_gives_up:
  assumes "\<forall>env \<in> set envs. connect_fails env \<or> idle_fails cfg env"
    and "\<not> thread_stopped s"
    and "MAX_IMAP_ERROR_COUNT cfg \<le> 0"
  shows "fst (idle cfg envs s) = None \<and> imap_error_count (snd (idle cfg envs s)) = imap_error_count s"
  using assms(1,2)
proof (induction envs arbitrary: s)
  case Nil
  show ?case by simp
next
  case (Cons env envs)
  from Cons.prems(1) have "connect_fails env \<or> idle_fails cfg env" by simp
  from idle_attempt_failure[OF this Cons.prems(2)] assms(3)
  obtain s' where s': "idle_attempt cfg env s = (Restart, s')"
      "\<not> thread_stopped s'" "imap_error_count s' = imap_error_count s"
    by auto
  from Cons.prems(1) have rest: "\<forall>env \<in> set envs. connect_fails env \<or> idle_fails cfg env"
    by simp
  from Cons.IH[OF rest s'(2)] s' show ?case by simp
qed

lemma idle_cycle_reaches_check:
  assumes "\<not> cy_stop env" "\<not> thread_stopped s" "connected_at s = Some since"
    and "\<not> overdue cfg since (cy_time env)"
  shows "idle_cycle cfg env s = checked cfg env s"
  using assms by (simp add: idle_cycle_def overdue_def Let_def)

lemma on_error_extends: "extends (snd (on_error cfg s)) s"
  by (simp add: on_error_def count_error_def wait_after_error_def Let_def extends_does_left
      split: bool.splits)

lemma idle_attempt_after_connect:
  assumes "\<not> at_stop env" "\<not> thread_stopped s"
  shows "extends (snd (idle_attempt cfg env s)) (does (Connect Primary) s)"
proof (cases "at_connect env")
  case (Inl e)
  with assms show ?thesis
    by (cases e) (simp_all add: idle_attempt_def on_error_extends)
next
  case (Inr u)
  let ?s1 = "does (Connect Primary) s"
  obtain r s2 where c: "idle_client cfg (at_client env) ?s1 = (r, s2)"
    by (cases "idle_client cfg (at_client env) ?s1")
  with idle_client_extends[of cfg "at_client env" ?s1] have s2: "extends s2 ?s1"
    by simp
  show ?thesis
  proof (cases r)
    case None
    with assms Inr c s2 show ?thesis
      by (simp add: idle_attempt_def)
  next
    case (Some outcome)
    define q where "q = (case outcome of
                          Inr u \<Rightarrow> (Restart, s2)
                        | Inl Exception \<Rightarrow> on_error cfg s2
                        | Inl KeyboardInterrupt \<Rightarrow> (Exit (Uncaught KeyboardInterrupt), s2))"
    have "extends (snd q) s2"
      unfolding q_def by (simp add: on_error_extends split: sum.splits exn.splits)
    then have q: "extends (snd q) ?s1"
      using s2 by (rule extends_trans)
    have "extends (snd (logout_quietly (Some Primary) (at_logout env) (snd q))) ?s1"
      using logout_quietly_extends q by (rule extends_trans)
    moreover have "snd (idle_attempt cfg env s) = snd (logout_quietly (Some Primary) (at_logout env) (snd q))"
      using assms Inr c Some
      by (cases q; cases "logout_quietly (Some Primary) (at_logout env) (snd q)")
         (auto simp: idle_attempt_def q_def split: option.splits)
    ultimately show ?thesis by simp
  qed
qed

lemma idle_attempt_count:
  assumes "0 \<le> imap_error_count s"
    and "\<not> (\<not> at_stop env \<and> \<not> thread_stopped s \<and>
            (at_connect env = Inl Exception \<or>
             at_connect env = Inr () \<and>
             fst (idle_client cfg (at_client env) (does (Connect Primary) s)) = Some (Inl Exception)))"
  shows "imap_error_count (snd (idle_attempt cfg env s)) \<le> imap_error_count s"
proof (cases "at_stop env \<or> thread_stopped s")
  case True
  then show ?thesis by (auto simp: idle_attempt_def)
next
  case False
  let ?s1 = "does (Connect Primary) s"
  obtain r s2 where c: "idle_client cfg (at_client env) ?s1 = (r, s2)"
    by (cases "idle_client cfg (at_client env) ?s1")
  from idle_client_count[of ?s1 cfg "at_client env"] assms(1) c
  have s2: "imap_error_count s2 \<le> imap_error_count s"
    by simp
  show ?thesis
  proof (cases "at_connect env")
    case (Inl e)
    with False assms(2) have "e = KeyboardInterrupt"
      by (cases e) auto
    with False Inl show ?thesis
      by (simp add: idle_attempt_def)
  next
    case (Inr u)
    with False assms(2) c have "r \<noteq> Some (Inl Exception)"
      by auto
    with False Inr c s2 show ?thesis
      by (auto simp: idle_attempt_def logout_quietly_def split: option.splits sum.splits exn.splits)
  qed
qed

lemma idle_attempt_idle_failure:
  assumes "\<not> at_stop env" "\<not> thread_stopped s" "at_connect env = Inr ()"
    and "idle_client cfg (at_client env) (does (Connect Primary) s) = (Some (Inl Exception), s2)"
  shows "imap_error_count (snd (idle_attempt cfg env s)) =
     imap_error_count s2 + (if 0 < MAX_IMAP_ERROR_COUNT cfg then 1 else 0)"
proof -
  obtain p s3 where e: "on_error cfg s2 = (p, s3)"
    by (cases "on_error cfg s2")
  with on_error_fields(2)[of cfg s2]
  have "imap_error_count s3 = imap_error_count s2 + (if 0 < MAX_IMAP_ERROR_COUNT cfg then 1 else 0)"
    by simp
  moreover have "imap_error_count (snd (idle_attempt cfg env s)) = imap_error_count s3"
    using assms e
    by (simp add: idle_attempt_def logout_quietly_def split: sum.splits exn.splits)
  ultimately show ?thesis by simp
qed

lemma idle_while_overdue:
  assumes "idle_while cfg before s1 = (None, s2)"
    and "\<not> thread_stopped s1" "connected_at s1 = Some since"
    and "\<not> cy_stop c" "overdue cfg since (cy_time c)"
  shows "idle_while cfg (before @ c # after) s1 = (Some (Inr ()), s2)"
proof -
  from idle_while_waiting[of cfg before s1] assms(1,2) have "\<not> thread_stopped s2"
    by simp
  moreover from idle_while_connected_at[of cfg before s1] assms(1,3)
  have "connected_at s2 = Some since"
    by simp
  ultimately have "idle_cycle cfg c s2 = (Break, s2)"
    using assms(4,5) by (simp add: idle_cycle_def overdue_def)
  with assms(1) show ?thesis
    by (simp add: idle_while_append)
qed


lemma idle_attempt_extends: "extends (snd (idle_attempt cfg env s)) s"
proof (cases "at_stop env \<or> thread_stopped s")
  case True
  then show ?thesis by (auto simp: idle_attempt_def)
next
  case False
  then have "extends (snd (idle_attempt cfg env s)) (does (Connect Primary) s)"
    by (simp add: idle_attempt_after_connect)
  then show ?thesis
    using extends_does by (rule extends_trans)
qed

lemma idle_extends: "extends (snd (idle cfg envs s)) s"
proof (induction envs arbitrary: s)
  case Nil
  show ?case by simp
next
  case (Cons env envs)
  show ?case
    using idle_attempt_extends[of cfg env s] Cons.IH[of "snd (idle_attempt cfg env s)"]
    by (cases "idle_attempt cfg env s") (auto split: progress.splits intro: extends_trans)
qed

section \<open>The claims\<close>

subsection \<open>The error budget\<close>

text \<open>
  Against claim C1 as worded (the worker ends after exactly N consecutive failures): with
  a budget of 1, one refused connection leaves the worker running, asleep for the
  configured minute and about to connect again; it ends at the second, with the counter
  at 2.
\<close>

theorem budget_exactly_counterexample:
  "idle (defaults\<lparr>MAX_IMAP_ERROR_COUNT := 1\<rparr>) [connect_refused] init =
     (None, \<lparr>thread_stopped = False, connected_at = None, imap_error_count = 1,
             calls = [Connect Primary, Sleep 60]\<rparr>) \<and>
   idle (defaults\<lparr>MAX_IMAP_ERROR_COUNT := 1\<rparr>) [connect_refused, connect_refused] init =
     (Some GaveUp, \<lparr>thread_stopped = False, connected_at = None, imap_error_count = 2,
                    calls = [Connect Primary, Sleep 60, Connect Primary]\<rparr>)"
  by (simp add: idle_attempt_def defaults_def connect_refused_def init_def controller_def
      on_error_def count_error_def wait_after_error_def does_def)

text \<open>
  Claim C1, amended. Let every pass of the worker's loop be a connection failure or an
  IDLE failure with no completed check cycle before it, with no stop requested, starting
  from a counter of zero. With a budget \<open>N > 0\<close> the worker goes on after each of the
  first \<open>N\<close> failures and ends at failure \<open>N + 1\<close>, when the counter exceeds the budget:
  the thread has ended exactly when the environment holds more than \<open>N\<close> failures, and
  nothing after the first \<open>N + 1\<close> is looked at. With a budget of 0 the worker has not
  ended after any number of failures.
\<close>

theorem gives_up_when_budget_exceeded:
  assumes "\<forall>env \<in> set envs. connect_fails env \<or> idle_fails cfg env"
    and "\<not> thread_stopped s" and "imap_error_count s = 0"
  shows "(0 < MAX_IMAP_ERROR_COUNT cfg \<longrightarrow>
            fst (idle cfg envs s) =
              (if nat (MAX_IMAP_ERROR_COUNT cfg) < length envs then Some GaveUp else None) \<and>
            idle cfg envs s = idle cfg (take (nat (MAX_IMAP_ERROR_COUNT cfg) + 1) envs) s) \<and>
         (MAX_IMAP_ERROR_COUNT cfg = 0 \<longrightarrow> fst (idle cfg envs s) = None)"
proof (intro conjI impI)
  assume pos: "0 < MAX_IMAP_ERROR_COUNT cfg"
  have g: "fst (idle cfg envs s) =
           (if nat (MAX_IMAP_ERROR_COUNT cfg - imap_error_count s) < length envs then Some GaveUp else None) \<and>
         idle cfg envs s = idle cfg (take (nat (MAX_IMAP_ERROR_COUNT cfg - imap_error_count s) + 1) envs) s"
    by (rule gives_up_after[OF assms(1,2) pos]) (use assms(3) pos in simp_all)
  from g[THEN conjunct1] show "fst (idle cfg envs s) =
              (if nat (MAX_IMAP_ERROR_COUNT cfg) < length envs then Some GaveUp else None)"
    unfolding assms(3) by simp
  from g[THEN conjunct2] show "idle cfg envs s = idle cfg (take (nat (MAX_IMAP_ERROR_COUNT cfg) + 1) envs) s"
    unfolding assms(3) by simp
next
  assume "MAX_IMAP_ERROR_COUNT cfg = 0"
  then show "fst (idle cfg envs s) = None"
    using never_gives_up[OF assms(1,2)] by simp
qed

theorem gives_up_when_budget_exceeded_witness:
  "connect_fails connect_refused \<and>
   idle_fails (defaults\<lparr>MAX_IMAP_ERROR_COUNT := 2\<rparr>) idle_refused \<and>
   \<not> thread_stopped init \<and> imap_error_count init = 0 \<and>
   fst (idle (defaults\<lparr>MAX_IMAP_ERROR_COUNT := 2\<rparr>)
          [connect_refused, idle_refused, connect_refused] init) = Some GaveUp \<and>
   fst (idle (defaults\<lparr>MAX_IMAP_ERROR_COUNT := 2\<rparr>) [connect_refused, idle_refused] init) = None \<and>
   fst (idle defaults [connect_refused, idle_refused, connect_refused] init) = None"
proof -
  have f: "connect_fails connect_refused" "idle_fails cfg idle_refused" for cfg
    by (simp_all add: connect_fails_def idle_fails_def connect_refused_def idle_refused_def
        no_session_def)
  have i: "\<not> thread_stopped init" "imap_error_count init = 0"
    by (simp_all add: init_def)
  have three: "\<forall>env \<in> set [connect_refused, idle_refused, connect_refused].
      connect_fails env \<or> idle_fails cfg env" for cfg
    using f by simp
  have two: "\<forall>env \<in> set [connect_refused, idle_refused].
      connect_fails env \<or> idle_fails cfg env" for cfg
    using f by simp
  show ?thesis
    using gives_up_when_budget_exceeded [OF three i, of "defaults\<lparr>MAX_IMAP_ERROR_COUNT := 2\<rparr>"]
      gives_up_when_budget_exceeded [OF two i, of "defaults\<lparr>MAX_IMAP_ERROR_COUNT := 2\<rparr>"]
      gives_up_when_budget_exceeded [OF three i, of defaults] f i
    by (simp add: defaults_def)
qed

text \<open>
  Against claim C4 as worded (every failure increments the counter whether or not a
  positive budget is configured): with the default budget of 0 a refused connection
  leaves the counter at 0.
\<close>

theorem budget_zero_counterexample:
  "idle_attempt defaults connect_refused init =
     (Restart, \<lparr>thread_stopped = False, connected_at = None, imap_error_count = 0,
                calls = [Connect Primary, Sleep 60]\<rparr>)"
  by (simp add: idle_attempt_def defaults_def connect_refused_def init_def controller_def
      on_error_def count_error_def wait_after_error_def does_def)

text \<open>
  Claim C4, amended. A pass in which the connector raises an \<^verbatim>\<open>Exception\<close>, and a pass
  in which \<^verbatim>\<open>__idle_client\<close> raises one, add one to the counter when a positive budget
  is configured and leave it as it is otherwise. Nothing else adds to it: every other
  pass of the worker's loop, the whole of \<^verbatim>\<open>__idle_client\<close> (with its check cycles,
  forced reconnection and teardown), a check cycle and an envelope fetch leave the counter
  no larger than it was.
\<close>

theorem error_count_increment:
  "(\<not> at_stop env \<and> \<not> thread_stopped s \<and> at_connect env = Inl Exception \<longrightarrow>
      imap_error_count (snd (idle_attempt cfg env s)) =
        imap_error_count s + (if 0 < MAX_IMAP_ERROR_COUNT cfg then 1 else 0)) \<and>
   (\<not> at_stop env \<and> \<not> thread_stopped s \<and> at_connect env = Inr () \<and>
    idle_client cfg (at_client env) (does (Connect Primary) s) = (Some (Inl Exception), s2) \<longrightarrow>
      imap_error_count (snd (idle_attempt cfg env s)) =
        imap_error_count s2 + (if 0 < MAX_IMAP_ERROR_COUNT cfg then 1 else 0)) \<and>
   (0 \<le> imap_error_count s \<and>
    \<not> (\<not> at_stop env \<and> \<not> thread_stopped s \<and>
       (at_connect env = Inl Exception \<or>
        at_connect env = Inr () \<and>
        fst (idle_client cfg (at_client env) (does (Connect Primary) s)) = Some (Inl Exception))) \<longrightarrow>
      imap_error_count (snd (idle_attempt cfg env s)) \<le> imap_error_count s) \<and>
   (0 \<le> imap_error_count s \<longrightarrow>
      imap_error_count (snd (idle_client cfg cenv s)) \<le> imap_error_count s) \<and>
   imap_error_count (snd (idle_loop cfg lenv s)) = imap_error_count s \<and>
   imap_error_count (snd (get_message_envelope fenv n s)) = imap_error_count s"
proof (intro conjI impI)
  assume "\<not> at_stop env \<and> \<not> thread_stopped s \<and> at_connect env = Inl Exception"
  then have "idle_attempt cfg env s = on_error cfg (does (Connect Primary) s)"
    by (simp add: idle_attempt_def)
  then show "imap_error_count (snd (idle_attempt cfg env s)) =
        imap_error_count s + (if 0 < MAX_IMAP_ERROR_COUNT cfg then 1 else 0)"
    by (simp add: on_error_fields(2))
next
  assume "\<not> at_stop env \<and> \<not> thread_stopped s \<and> at_connect env = Inr () \<and>
    idle_client cfg (at_client env) (does (Connect Primary) s) = (Some (Inl Exception), s2)"
  then show "imap_error_count (snd (idle_attempt cfg env s)) =
        imap_error_count s2 + (if 0 < MAX_IMAP_ERROR_COUNT cfg then 1 else 0)"
    by (simp add: idle_attempt_idle_failure)
next
  assume "0 \<le> imap_error_count s \<and>
    \<not> (\<not> at_stop env \<and> \<not> thread_stopped s \<and>
       (at_connect env = Inl Exception \<or>
        at_connect env = Inr () \<and>
        fst (idle_client cfg (at_client env) (does (Connect Primary) s)) = Some (Inl Exception)))"
  then show "imap_error_count (snd (idle_attempt cfg env s)) \<le> imap_error_count s"
    using idle_attempt_count[of s env cfg] by blast
next
  assume "0 \<le> imap_error_count s"
  then show "imap_error_count (snd (idle_client cfg cenv s)) \<le> imap_error_count s"
    by (simp add: idle_client_count)
next
  show "imap_error_count (snd (idle_loop cfg lenv s)) = imap_error_count s"
    by (rule idle_loop_fields(3))
next
  show "imap_error_count (snd (get_message_envelope fenv n s)) = imap_error_count s"
    by (rule get_message_envelope_fields(3))
qed

theorem error_count_increment_witness:
  "imap_error_count (snd (idle_attempt (defaults\<lparr>MAX_IMAP_ERROR_COUNT := 5\<rparr>) connect_refused init)) = 1 \<and>
   imap_error_count (snd (idle_attempt (defaults\<lparr>MAX_IMAP_ERROR_COUNT := 5\<rparr>) idle_refused init)) = 1 \<and>
   imap_error_count (snd (idle_attempt (defaults\<lparr>MAX_IMAP_ERROR_COUNT := 5\<rparr>)
      (connect_refused\<lparr>at_stop := True\<rparr>) init)) \<le> 0"
  using error_count_increment [of connect_refused init "defaults\<lparr>MAX_IMAP_ERROR_COUNT := 5\<rparr>"]
    error_count_increment [of idle_refused init "defaults\<lparr>MAX_IMAP_ERROR_COUNT := 5\<rparr>"
      "does Idle (does (Connect Primary) init\<lparr>connected_at := Some 0\<rparr>)"]
    error_count_increment [of "connect_refused\<lparr>at_stop := True\<rparr>" init
      "defaults\<lparr>MAX_IMAP_ERROR_COUNT := 5\<rparr>"]
  by (simp add: connect_refused_def idle_refused_def no_session_def init_def defaults_def
      idle_client_def controller_def does_def)

subsection \<open>The response parser\<close>

text \<open>
  Claim C2. In strict mode the parser, given a raw notification, returns a sequence number
  exactly when the notification has at least two pairs of which the first two carry
  \<^verbatim>\<open>EXISTS\<close> and \<^verbatim>\<open>RECENT\<close>, in either order, and the number is the tag paired with
  \<^verbatim>\<open>EXISTS\<close>; otherwise it returns \<^verbatim>\<open>None\<close>. The four inputs of the specification
  follow.
\<close>

theorem strict_mode_parser:
  "get_new_message_number (notification rs) False =
     Inr (if 2 \<le> length rs \<and> snd (rs ! 0) = ''EXISTS'' \<and> snd (rs ! 1) = ''RECENT''
          then PInt (fst (rs ! 0))
          else if 2 \<le> length rs \<and> snd (rs ! 1) = ''EXISTS'' \<and> snd (rs ! 0) = ''RECENT''
          then PInt (fst (rs ! 1))
          else PNone) \<and>
   get_new_message_number (notification [(275, ''EXISTS''), (1, ''RECENT'')]) False = Inr (PInt 275) \<and>
   get_new_message_number (notification [(1, ''RECENT''), (275, ''EXISTS'')]) False = Inr (PInt 275) \<and>
   get_new_message_number (notification [(275, ''EXISTS'')]) False = Inr PNone \<and>
   get_new_message_number (notification []) False = Inr PNone"
proof -
  have general: "get_new_message_number (notification rs) False =
     Inr (if 2 \<le> length rs \<and> snd (rs ! 0) = ''EXISTS'' \<and> snd (rs ! 1) = ''RECENT''
          then PInt (fst (rs ! 0))
          else if 2 \<le> length rs \<and> snd (rs ! 1) = ''EXISTS'' \<and> snd (rs ! 0) = ''RECENT''
          then PInt (fst (rs ! 1))
          else PNone)" for rs
    by (rule strict_general)
  show ?thesis
    by (intro conjI, rule general) (simp_all add: general)
qed

theorem strict_mode_parser_witness:
  "get_new_message_number (notification [(42, ''EXISTS''), (1, ''RECENT''), (7, ''FETCH'')]) False
     = Inr (PInt 42)"
  using strict_mode_parser [of "[(42, ''EXISTS''), (1, ''RECENT''), (7, ''FETCH'')]"]
  by simp

text \<open>
  Claim C3. In relaxed mode the parser returns the tag of the first pair exactly when the
  keyword of the first pair is \<^verbatim>\<open>EXISTS\<close>, and \<^verbatim>\<open>None\<close> otherwise; a value that is
  not a list, a first element that is not a tuple and a first tuple with fewer than two
  elements give \<^verbatim>\<open>None\<close>.
\<close>

theorem relaxed_mode_parser:
  "get_new_message_number (notification rs) True =
     Inr (if 1 \<le> length rs \<and> snd (rs ! 0) = ''EXISTS'' then PInt (fst (rs ! 0)) else PNone) \<and>
   get_new_message_number (notification [(275, ''EXISTS'')]) True = Inr (PInt 275) \<and>
   get_new_message_number (notification [(1, ''RECENT'')]) True = Inr PNone \<and>
   get_new_message_number (notification []) True = Inr PNone \<and>
   (\<not> is_list v \<longrightarrow> get_new_message_number v True = Inr PNone) \<and>
   (\<not> is_tuple x \<longrightarrow> get_new_message_number (PList (x # xs)) True = Inr PNone) \<and>
   (length ts < 2 \<longrightarrow> get_new_message_number (PList (PTuple ts # xs)) True = Inr PNone)"
proof -
  have general: "get_new_message_number (notification rs) True =
     Inr (if 1 \<le> length rs \<and> snd (rs ! 0) = ''EXISTS'' then PInt (fst (rs ! 0)) else PNone)" for rs
    by (rule relaxed_general)
  have not_list: "\<not> is_list v \<longrightarrow> get_new_message_number v True = Inr PNone"
    by (simp add: get_new_message_number_def)
  have not_tuple: "\<not> is_tuple x \<longrightarrow> get_new_message_number (PList (x # xs)) True = Inr PNone"
    by (simp add: get_new_message_number_def and_then_def)
  have short: "length ts < 2 \<longrightarrow> get_new_message_number (PList (PTuple ts # xs)) True = Inr PNone"
    by (simp add: get_new_message_number_def and_then_def)
  show ?thesis
    by (intro conjI, rule general) (simp_all add: general not_list not_tuple short)
qed

theorem relaxed_mode_parser_witness:
  "get_new_message_number (notification [(42, ''EXISTS''), (1, ''RECENT'')]) True = Inr (PInt 42) \<and>
   \<not> is_list (PTuple [PInt 275, PBytes ''EXISTS'']) \<and>
   get_new_message_number (PTuple [PInt 275, PBytes ''EXISTS'']) True = Inr PNone \<and>
   \<not> is_tuple (PList [PInt 275, PBytes ''EXISTS'']) \<and>
   get_new_message_number (PList [PList [PInt 275, PBytes ''EXISTS'']]) True = Inr PNone \<and>
   length [PBytes ''EXISTS''] < 2 \<and>
   get_new_message_number (PList [PTuple [PBytes ''EXISTS'']]) True = Inr PNone"
  using relaxed_mode_parser [of "[(42, ''EXISTS''), (1, ''RECENT'')]"
      "PTuple [PInt 275, PBytes ''EXISTS'']" "PList [PInt 275, PBytes ''EXISTS'']" "[]"
      "[PBytes ''EXISTS'']"]
  by simp

text \<open>
  Claim C9. The parser is a function of its two arguments alone, so two evaluations on the
  same input and mode agree and no call to a collaborator is made; and on every value and
  in either mode it returns, none of its \<^verbatim>\<open>len\<close> calls and subscripts raises.
\<close>

theorem parser_never_raises:
  "\<exists>r. get_new_message_number responses ignoreRecent = Inr r"
  by (rule parser_total)

theorem parser_never_raises_witness:
  "\<exists>r. get_new_message_number (PList [PTuple [PInt 3], PNone]) False = Inr r"
  using parser_never_raises [of "PList [PTuple [PInt 3], PNone]" False] .

text \<open>
  Claim C10. For \<^verbatim>\<open>[(0, b'EXISTS')]\<close> the relaxed parser returns 0, which is not true
  as \<^verbatim>\<open>if not message_nr\<close> tests it; and whenever the parser returns 0 the check
  cycle returns after the wait, with no call to the connector, no fetch and no call to the
  callback.
\<close>

theorem zero_sequence_number_ignored:
  "get_new_message_number (notification [(0, ''EXISTS'')]) True = Inr (PInt 0) \<and>
   \<not> truthy (PInt 0) \<and>
   (le_idle_check env = Inr responses \<and>
    get_new_message_number responses (ignoreRecentFlag cfg) = Inr (PInt 0) \<longrightarrow>
    idle_loop cfg env s = (Inr (), does (IdleCheck (SECONDS_TO_WAIT_FOR_IDLE_RESPONSE cfg)) s))"
  by (auto simp add: relaxed_general idle_loop_def Let_def)

theorem zero_sequence_number_ignored_witness:
  "idle_loop (defaults\<lparr>ignoreRecentFlag := True\<rparr>)
     \<lparr>le_idle_check = Inr (notification [(0, ''EXISTS'')]),
      le_fetch = serves (PInt 0) (PTuple [PBytes ''subject'']), le_trigger = Inr ()\<rparr> init =
   (Inr (), \<lparr>thread_stopped = False, connected_at = None, imap_error_count = 0,
            calls = [IdleCheck 15]\<rparr>)"
  using zero_sequence_number_ignored [of
      "\<lparr>le_idle_check = Inr (notification [(0, ''EXISTS'')]),
        le_fetch = serves (PInt 0) (PTuple [PBytes ''subject'']), le_trigger = Inr ()\<rparr>"
      "notification [(0, ''EXISTS'')]" "defaults\<lparr>ignoreRecentFlag := True\<rparr>" init]
  by (simp add: defaults_def init_def does_def)

subsection \<open>The check cycle\<close>

text \<open>
  Claim C5. A pass of the IDLE loop that reaches the check and whose check cycle returns
  goes on to the next pass with the counter at zero. The check cycle returns whenever the
  wait returns and none of its calls is interrupted from the keyboard, whatever the
  responses are and whether the fetch and the callback fail or not. At every step of the
  loop, a pass that goes on has left the counter at zero, and so has the loop while it has
  not left after at least one pass.
\<close>

theorem error_count_reset_after_check:
  "(\<not> cy_stop env \<and> \<not> thread_stopped s \<and> connected_at s = Some since \<and>
    \<not> overdue cfg since (cy_time env) \<and> fst (idle_loop cfg (cy_loop env) s) = Inr () \<longrightarrow>
      fst (idle_cycle cfg env s) = Continue \<and> imap_error_count (snd (idle_cycle cfg env s)) = 0) \<and>
   (le_idle_check (cy_loop env) = Inr responses \<and>
    fe_connect (le_fetch (cy_loop env)) \<noteq> Inl KeyboardInterrupt \<and>
    fe_fetch (le_fetch (cy_loop env)) \<noteq> Inl KeyboardInterrupt \<and>
    fe_logout (le_fetch (cy_loop env)) \<noteq> Inl KeyboardInterrupt \<and>
    le_trigger (cy_loop env) \<noteq> Inl KeyboardInterrupt \<longrightarrow>
      fst (idle_loop cfg (cy_loop env) s) = Inr ()) \<and>
   (fst (idle_cycle cfg env s) = Continue \<longrightarrow> imap_error_count (snd (idle_cycle cfg env s)) = 0) \<and>
   (fst (idle_while cfg (envs @ [env]) s) = None \<longrightarrow>
      imap_error_count (snd (idle_while cfg (envs @ [env]) s)) = 0)"
proof (intro conjI impI)
  assume a: "\<not> cy_stop env \<and> \<not> thread_stopped s \<and> connected_at s = Some since \<and>
    \<not> overdue cfg since (cy_time env) \<and> fst (idle_loop cfg (cy_loop env) s) = Inr ()"
  then have c: "idle_cycle cfg env s = checked cfg env s"
    by (simp add: idle_cycle_reaches_check)
  from a have "fst (checked cfg env s) = Continue"
    by (cases "idle_loop cfg (cy_loop env) s") (simp add: checked_def)
  with c show "fst (idle_cycle cfg env s) = Continue"
    by simp
  then show "imap_error_count (snd (idle_cycle cfg env s)) = 0"
    by (rule idle_cycle_fields(3))
next
  assume "le_idle_check (cy_loop env) = Inr responses \<and>
    fe_connect (le_fetch (cy_loop env)) \<noteq> Inl KeyboardInterrupt \<and>
    fe_fetch (le_fetch (cy_loop env)) \<noteq> Inl KeyboardInterrupt \<and>
    fe_logout (le_fetch (cy_loop env)) \<noteq> Inl KeyboardInterrupt \<and>
    le_trigger (cy_loop env) \<noteq> Inl KeyboardInterrupt"
  then show "fst (idle_loop cfg (cy_loop env) s) = Inr ()"
    by (simp add: idle_loop_returns)
next
  assume "fst (idle_cycle cfg env s) = Continue"
  then show "imap_error_count (snd (idle_cycle cfg env s)) = 0"
    by (rule idle_cycle_fields(3))
next
  assume "fst (idle_while cfg (envs @ [env]) s) = None"
  from idle_while_waiting[OF this] show "imap_error_count (snd (idle_while cfg (envs @ [env]) s)) = 0"
    by simp
qed

theorem error_count_reset_after_check_witness:
  "idle_cycle defaults \<lparr>cy_stop = False, cy_time = 30, cy_loop = timeout\<rparr>
     \<lparr>thread_stopped = False, connected_at = Some 20, imap_error_count = 3, calls = []\<rparr> =
   (Continue, \<lparr>thread_stopped = False, connected_at = Some 20, imap_error_count = 0,
               calls = [IdleCheck 15]\<rparr>)"
  using error_count_reset_after_check [of "\<lparr>cy_stop = False, cy_time = 30, cy_loop = timeout\<rparr>"
      "\<lparr>thread_stopped = False, connected_at = Some 20, imap_error_count = 3, calls = []\<rparr>"
      20 defaults "PList []" "[]"]
  by (simp add: idle_cycle_def checked_def idle_loop_def timeout_def refused_def defaults_def
      overdue_def does_def controller_def)

text \<open>
  Claim C6. \<^verbatim>\<open>__get_message_envelope\<close> never raises an \<^verbatim>\<open>Exception\<close>; when the connect
  or the fetch on the secondary session raises one, it returns \<^verbatim>\<open>None\<close>. Whenever the
  secondary session was opened, the calls made are the connect, the fetch and the logout,
  whatever the fetch answered, and an \<^verbatim>\<open>Exception\<close> of the logout changes nothing in
  the result. The counter is not touched, and the check cycle around a failed fetch
  returns without raising, with no call to the callback.
\<close>

theorem envelope_fetch_contained:
  "fst (get_message_envelope env n s) \<noteq> Inl Exception \<and>
   (fe_connect env = Inl Exception \<or>
    fe_connect env = Inr () \<and> fe_fetch env = Inl Exception \<and> fe_logout env \<noteq> Inl KeyboardInterrupt \<longrightarrow>
      fst (get_message_envelope env n s) = Inr PNone) \<and>
   (fe_connect env = Inr () \<longrightarrow>
      calls (snd (get_message_envelope env n s)) =
        calls s @ [Connect Secondary, Fetch n, Logout Secondary]) \<and>
   (fe_logout env = Inl Exception \<longrightarrow>
      fst (get_message_envelope env n s) = fst (get_message_envelope (env\<lparr>fe_logout := Inr ()\<rparr>) n s)) \<and>
   imap_error_count (snd (get_message_envelope env n s)) = imap_error_count s \<and>
   (le_idle_check lenv = Inr responses \<and> truthy responses \<and>
    get_new_message_number responses (ignoreRecentFlag cfg) = Inr nr \<and> truthy nr \<and>
    (fe_connect (le_fetch lenv) = Inl Exception \<or>
     fe_connect (le_fetch lenv) = Inr () \<and> fe_fetch (le_fetch lenv) = Inl Exception \<and>
     fe_logout (le_fetch lenv) \<noteq> Inl KeyboardInterrupt) \<longrightarrow>
      idle_loop cfg lenv s0 =
        (Inr (), snd (get_message_envelope (le_fetch lenv) nr
                       (does (IdleCheck (SECONDS_TO_WAIT_FOR_IDLE_RESPONSE cfg)) s0))))"
proof (intro conjI impI)
  show "fst (get_message_envelope env n s) \<noteq> Inl Exception"
    by (rule get_message_envelope_no_exception)
next
  assume "fe_connect env = Inl Exception \<or>
    fe_connect env = Inr () \<and> fe_fetch env = Inl Exception \<and> fe_logout env \<noteq> Inl KeyboardInterrupt"
  then show "fst (get_message_envelope env n s) = Inr PNone"
    by (rule get_message_envelope_failure)
next
  assume "fe_connect env = Inr ()"
  then show "calls (snd (get_message_envelope env n s)) =
        calls s @ [Connect Secondary, Fetch n, Logout Secondary]"
    by (rule get_message_envelope_calls)
next
  assume "fe_logout env = Inl Exception"
  then show "fst (get_message_envelope env n s) = fst (get_message_envelope (env\<lparr>fe_logout := Inr ()\<rparr>) n s)"
    by (simp add: get_message_envelope_def fetch_body_def logout_quietly_def
        split: sum.splits exn.splits option.splits)
next
  show "imap_error_count (snd (get_message_envelope env n s)) = imap_error_count s"
    by (rule get_message_envelope_fields(3))
next
  let ?s1 = "does (IdleCheck (SECONDS_TO_WAIT_FOR_IDLE_RESPONSE cfg)) s0"
  assume a: "le_idle_check lenv = Inr responses \<and> truthy responses \<and>
    get_new_message_number responses (ignoreRecentFlag cfg) = Inr nr \<and> truthy nr \<and>
    (fe_connect (le_fetch lenv) = Inl Exception \<or>
     fe_connect (le_fetch lenv) = Inr () \<and> fe_fetch (le_fetch lenv) = Inl Exception \<and>
     fe_logout (le_fetch lenv) \<noteq> Inl KeyboardInterrupt)"
  then have "fst (get_message_envelope (le_fetch lenv) nr ?s1) = Inr PNone"
    by (simp add: get_message_envelope_failure)
  with a show "idle_loop cfg lenv s0 = (Inr (), snd (get_message_envelope (le_fetch lenv) nr ?s1))"
    by (cases "get_message_envelope (le_fetch lenv) nr ?s1") (simp add: idle_loop_def)
qed

theorem envelope_fetch_contained_witness:
  "idle_loop defaults
     \<lparr>le_idle_check = Inr (notification [(42, ''EXISTS''), (1, ''RECENT'')]),
      le_fetch = \<lparr>fe_connect = Inr (), fe_fetch = Inl Exception, fe_logout = Inl Exception\<rparr>,
      le_trigger = Inr ()\<rparr> init =
   (Inr (), \<lparr>thread_stopped = False, connected_at = None, imap_error_count = 0,
      calls = [IdleCheck 15, Connect Secondary, Fetch (PInt 42), Logout Secondary]\<rparr>)"
  using envelope_fetch_contained [of
      "\<lparr>fe_connect = Inr (), fe_fetch = Inl Exception, fe_logout = Inl Exception\<rparr>"
      "PInt 42" "does (IdleCheck 15) init"
      "\<lparr>le_idle_check = Inr (notification [(42, ''EXISTS''), (1, ''RECENT'')]),
        le_fetch = \<lparr>fe_connect = Inr (), fe_fetch = Inl Exception, fe_logout = Inl Exception\<rparr>,
        le_trigger = Inr ()\<rparr>"
      "notification [(42, ''EXISTS''), (1, ''RECENT'')]" defaults "PInt 42" init]
  by (simp add: get_new_message_number_def and_then_def notification_def defaults_def
      init_def does_def get_message_envelope_def fetch_body_def logout_quietly_def)

text \<open>
  Claim C7. A check cycle in which the callback raises an \<^verbatim>\<open>Exception\<close> ends as the
  same cycle with a callback that returns, in result and in state. When the cycle gets as
  far as the callback and the callback raises an \<^verbatim>\<open>Exception\<close>, the check cycle
  returns, and the pass of the IDLE loop goes on to the next pass with the counter reset
  to zero.
\<close>

theorem dispatch_failure_contained:
  "(le_trigger lenv = Inl Exception \<longrightarrow>
      idle_loop cfg lenv s0 = idle_loop cfg (lenv\<lparr>le_trigger := Inr ()\<rparr>) s0) \<and>
   (le_idle_check (cy_loop env) = Inr responses \<and> truthy responses \<and>
    get_new_message_number responses (ignoreRecentFlag cfg) = Inr nr \<and> truthy nr \<and>
    get_message_envelope (le_fetch (cy_loop env)) nr
      (does (IdleCheck (SECONDS_TO_WAIT_FOR_IDLE_RESPONSE cfg)) s) = (Inr envelope, s2) \<and>
    truthy envelope \<and> le_trigger (cy_loop env) = Inl Exception \<and>
    \<not> cy_stop env \<and> \<not> thread_stopped s \<and> connected_at s = Some since \<and>
    \<not> overdue cfg since (cy_time env) \<longrightarrow>
      idle_loop cfg (cy_loop env) s = (Inr (), does (TriggerNewMessage envelope) s2) \<and>
      idle_cycle cfg env s =
        (Continue, (does (TriggerNewMessage envelope) s2)\<lparr>imap_error_count := 0\<rparr>))"
proof (intro conjI impI)
  assume "le_trigger lenv = Inl Exception"
  then show "idle_loop cfg lenv s0 = idle_loop cfg (lenv\<lparr>le_trigger := Inr ()\<rparr>) s0"
    by (simp add: idle_loop_def Let_def split: sum.splits prod.splits)
next
  assume a: "le_idle_check (cy_loop env) = Inr responses \<and> truthy responses \<and>
    get_new_message_number responses (ignoreRecentFlag cfg) = Inr nr \<and> truthy nr \<and>
    get_message_envelope (le_fetch (cy_loop env)) nr
      (does (IdleCheck (SECONDS_TO_WAIT_FOR_IDLE_RESPONSE cfg)) s) = (Inr envelope, s2) \<and>
    truthy envelope \<and> le_trigger (cy_loop env) = Inl Exception \<and>
    \<not> cy_stop env \<and> \<not> thread_stopped s \<and> connected_at s = Some since \<and>
    \<not> overdue cfg since (cy_time env)"
  then show l: "idle_loop cfg (cy_loop env) s = (Inr (), does (TriggerNewMessage envelope) s2)"
    by (simp add: idle_loop_def)
  from a have "idle_cycle cfg env s = checked cfg env s"
    by (simp add: idle_cycle_reaches_check)
  with l show "idle_cycle cfg env s =
        (Continue, (does (TriggerNewMessage envelope) s2)\<lparr>imap_error_count := 0\<rparr>)"
    by (simp add: checked_def)
qed

theorem dispatch_failure_contained_witness:
  "idle_cycle defaults
     \<lparr>cy_stop = False, cy_time = 30,
      cy_loop = \<lparr>le_idle_check = Inr (notification [(42, ''EXISTS''), (1, ''RECENT'')]),
                 le_fetch = serves (PInt 42) (PTuple [PBytes ''subject'']),
                 le_trigger = Inl Exception\<rparr>\<rparr>
     \<lparr>thread_stopped = False, connected_at = Some 20, imap_error_count = 3, calls = []\<rparr> =
   (Continue, \<lparr>thread_stopped = False, connected_at = Some 20, imap_error_count = 0,
      calls = [IdleCheck 15, Connect Secondary, Fetch (PInt 42), Logout Secondary,
               TriggerNewMessage (PTuple [PBytes ''subject''])]\<rparr>)"
  using dispatch_failure_contained [of
      "\<lparr>le_idle_check = Inr (notification [(42, ''EXISTS''), (1, ''RECENT'')]),
                 le_fetch = serves (PInt 42) (PTuple [PBytes ''subject'']),
                 le_trigger = Inl Exception\<rparr>"
      defaults
      "\<lparr>thread_stopped = False, connected_at = Some 20, imap_error_count = 3, calls = []\<rparr>"
      "\<lparr>cy_stop = False, cy_time = 30,
      cy_loop = \<lparr>le_idle_check = Inr (notification [(42, ''EXISTS''), (1, ''RECENT'')]),
                 le_fetch = serves (PInt 42) (PTuple [PBytes ''subject'']),
                 le_trigger = Inl Exception\<rparr>\<rparr>"
      "notification [(42, ''EXISTS''), (1, ''RECENT'')]" "PInt 42"
      "\<lparr>thread_stopped = False, connected_at = Some 20, imap_error_count = 3, calls = []\<rparr>"
      "PTuple [PBytes ''subject'']"
      "\<lparr>thread_stopped = False, connected_at = Some 20, imap_error_count = 3,
        calls = [IdleCheck 15, Connect Secondary, Fetch (PInt 42), Logout Secondary]\<rparr>"
      20]
  by (simp add: get_new_message_number_def and_then_def notification_def defaults_def
      serves_def does_def get_message_envelope_def fetch_body_def logout_quietly_def
      overdue_def)

subsection \<open>Forced reconnection\<close>

text \<open>
  Against claim C8 as worded (whenever the age of the session exceeds the configured
  threshold): with a threshold of 0 configured, a session that entered IDLE mode at time 0
  is not left at time 1000; the worker waits for the next notification.
\<close>

theorem threshold_zero_counterexample:
  "idle_attempt (defaults\<lparr>SECONDS_TO_RECONNECT_AFTER := 0\<rparr>) (quiet_session 0 [1000]) init =
     (Waiting, \<lparr>thread_stopped = False, connected_at = Some 0, imap_error_count = 0,
                calls = [Connect Primary, Idle, IdleCheck 15]\<rparr>)"
  by (simp add: idle_attempt_def idle_client_def idle_cycle_def checked_def idle_loop_def
      quiet_session_def quiet_check_def timeout_def defaults_def init_def controller_def
      does_def)

lemma reconnects_when_overdue:
  assumes "0 < SECONDS_TO_RECONNECT_AFTER cfg"
    and "\<not> at_stop env" "\<not> thread_stopped s" "at_connect env = Inr ()"
    and "\<not> cl_stop (at_client env)" "cl_idle (at_client env) = Inr ()"
    and "cl_cycles (at_client env) = before @ c # after"
    and "idle_while cfg before
           (does Idle ((does (Connect Primary) s)\<lparr>connected_at := Some (cl_time (at_client env))\<rparr>))
         = (None, s2)"
    and "\<not> cy_stop c"
    and "SECONDS_TO_RECONNECT_AFTER cfg < cy_time c - cl_time (at_client env)"
    and "cl_idle_done (at_client env) \<noteq> Inl KeyboardInterrupt"
    and "at_logout env \<noteq> Inl KeyboardInterrupt"
  shows "idle_attempt cfg env s = (Restart, does (Logout Primary) (does IdleDone s2)) \<and>
         imap_error_count (snd (idle_attempt cfg env s)) = imap_error_count s2 \<and>
         (\<not> at_stop next \<longrightarrow>
            (\<exists>rest. calls (snd (idle cfg (env # next # envs) s)) =
               calls s2 @ [IdleDone, Logout Primary, Connect Primary] @ rest))"
proof -
  let ?s1 = "does Idle ((does (Connect Primary) s)\<lparr>connected_at := Some (cl_time (at_client env))\<rparr>)"
  let ?s3 = "does (Logout Primary) (does IdleDone s2)"
  have "overdue cfg (cl_time (at_client env)) (cy_time c)"
    using assms(1,10) by (simp add: overdue_def)
  with assms(3,8,9) have "idle_while cfg (before @ c # after) ?s1 = (Some (Inr ()), s2)"
    by (intro idle_while_overdue) simp_all
  with assms(3,5,6,7,11) have "idle_client cfg (at_client env) (does (Connect Primary) s) =
      (Some (Inr ()), does IdleDone s2)"
    by (simp add: idle_client_def split: sum.splits exn.splits)
  with assms(2,3,4,12) have a: "idle_attempt cfg env s = (Restart, ?s3)"
    by (simp add: idle_attempt_def logout_quietly_def split: sum.splits exn.splits)
  have stopped: "\<not> thread_stopped ?s3"
    using idle_while_waiting[of cfg before ?s1] assms(3,8) by simp
  have "\<exists>rest. calls (snd (idle cfg (env # next # envs) s)) =
               calls s2 @ [IdleDone, Logout Primary, Connect Primary] @ rest" if "\<not> at_stop next"
  proof -
    obtain p s4 where n: "idle_attempt cfg next ?s3 = (p, s4)"
      by (cases "idle_attempt cfg next ?s3")
    with idle_attempt_after_connect[OF that stopped, of cfg]
    have s4: "extends s4 (does (Connect Primary) ?s3)"
      by simp
    have "extends (snd (idle cfg (env # next # envs) s)) s4"
      using a n idle_extends[of cfg envs s4] by (cases p) simp_all
    then have "extends (snd (idle cfg (env # next # envs) s)) (does (Connect Primary) ?s3)"
      using s4 by (rule extends_trans)
    then show ?thesis
      by (simp add: extends_def)
  qed
  with a show ?thesis by simp
qed

text \<open>
  Claim C8, amended. Let a positive threshold be configured, and let a pass of the IDLE
  loop, with no stop requested, read a time at which the age of the session exceeds the
  threshold, after any number of passes that went on, the teardown not being interrupted
  from the keyboard. Then the worker ends IDLE mode and logs out, makes no other call (no
  check, no sleep), leaves the counter as it was, and starts the next pass of its loop;
  unless a stop has been requested by then, that pass begins by connecting again. With a
  threshold of 0 (or less) configured no reconnection is forced: whatever the age of the
  session, a pass of the IDLE loop with no stop requested goes to its check cycle.
\<close>

theorem forced_reconnection:
  "(0 < SECONDS_TO_RECONNECT_AFTER cfg \<and>
    \<not> at_stop env \<and> \<not> thread_stopped s \<and> at_connect env = Inr () \<and>
    \<not> cl_stop (at_client env) \<and> cl_idle (at_client env) = Inr () \<and>
    cl_cycles (at_client env) = before @ c # after \<and>
    idle_while cfg before
      (does Idle ((does (Connect Primary) s)\<lparr>connected_at := Some (cl_time (at_client env))\<rparr>))
      = (None, s2) \<and>
    \<not> cy_stop c \<and>
    SECONDS_TO_RECONNECT_AFTER cfg < cy_time c - cl_time (at_client env) \<and>
    cl_idle_done (at_client env) \<noteq> Inl KeyboardInterrupt \<and>
    at_logout env \<noteq> Inl KeyboardInterrupt \<longrightarrow>
      idle_attempt cfg env s = (Restart, does (Logout Primary) (does IdleDone s2)) \<and>
      imap_error_count (snd (idle_attempt cfg env s)) = imap_error_count s2 \<and>
      (\<not> at_stop next \<longrightarrow>
         (\<exists>rest. calls (snd (idle cfg (env # next # envs) s)) =
            calls s2 @ [IdleDone, Logout Primary, Connect Primary] @ rest))) \<and>
   (SECONDS_TO_RECONNECT_AFTER cfg \<le> 0 \<and> \<not> cy_stop c0 \<and> \<not> thread_stopped s0 \<longrightarrow>
      idle_cycle cfg c0 s0 = checked cfg c0 s0)"
proof (intro conjI impI)
  assume a: "0 < SECONDS_TO_RECONNECT_AFTER cfg \<and>
    \<not> at_stop env \<and> \<not> thread_stopped s \<and> at_connect env = Inr () \<and>
    \<not> cl_stop (at_client env) \<and> cl_idle (at_client env) = Inr () \<and>
    cl_cycles (at_client env) = before @ c # after \<and>
    idle_while cfg before
      (does Idle ((does (Connect Primary) s)\<lparr>connected_at := Some (cl_time (at_client env))\<rparr>))
      = (None, s2) \<and>
    \<not> cy_stop c \<and>
    SECONDS_TO_RECONNECT_AFTER cfg < cy_time c - cl_time (at_client env) \<and>
    cl_idle_done (at_client env) \<noteq> Inl KeyboardInterrupt \<and>
    at_logout env \<noteq> Inl KeyboardInterrupt"
  have r: "idle_attempt cfg env s = (Restart, does (Logout Primary) (does IdleDone s2)) \<and>
      imap_error_count (snd (idle_attempt cfg env s)) = imap_error_count s2 \<and>
      (\<not> at_stop next \<longrightarrow>
         (\<exists>rest. calls (snd (idle cfg (env # next # envs) s)) =
            calls s2 @ [IdleDone, Logout Primary, Connect Primary] @ rest))"
    by (rule reconnects_when_overdue) (use a in blast)+
  from r show "idle_attempt cfg env s = (Restart, does (Logout Primary) (does IdleDone s2))"
    by blast
  from r show "imap_error_count (snd (idle_attempt cfg env s)) = imap_error_count s2"
    by blast
  assume "\<not> at_stop next"
  with r show "\<exists>rest. calls (snd (idle cfg (env # next # envs) s)) =
            calls s2 @ [IdleDone, Logout Primary, Connect Primary] @ rest"
    by blast
next
  assume "SECONDS_TO_RECONNECT_AFTER cfg \<le> 0 \<and> \<not> cy_stop c0 \<and> \<not> thread_stopped s0"
  then show "idle_cycle cfg c0 s0 = checked cfg c0 s0"
    by (simp add: idle_cycle_def)
qed

theorem forced_reconnection_witness:
  "0 < SECONDS_TO_RECONNECT_AFTER defaults \<and>
   SECONDS_TO_RECONNECT_AFTER defaults < cy_time (quiet_check 601) - 0 \<and>
   idle_attempt defaults (quiet_session 0 [10, 601]) init =
     (Restart, \<lparr>thread_stopped = False, connected_at = Some 0, imap_error_count = 0,
                calls = [Connect Primary, Idle, IdleCheck 15, IdleDone, Logout Primary]\<rparr>) \<and>
   (\<exists>rest. calls (snd (idle defaults [quiet_session 0 [10, 601], connect_refused] init)) =
      [Connect Primary, Idle, IdleCheck 15, IdleDone, Logout Primary, Connect Primary] @ rest) \<and>
   SECONDS_TO_RECONNECT_AFTER (defaults\<lparr>SECONDS_TO_RECONNECT_AFTER := 0\<rparr>) \<le> 0 \<and>
   idle_cycle (defaults\<lparr>SECONDS_TO_RECONNECT_AFTER := 0\<rparr>) (quiet_check 1000)
       \<lparr>thread_stopped = False, connected_at = Some 0, imap_error_count = 0, calls = []\<rparr> =
     (Continue, \<lparr>thread_stopped = False, connected_at = Some 0, imap_error_count = 0,
                 calls = [IdleCheck 15]\<rparr>)"
proof -
  let ?s2 = "\<lparr>thread_stopped = False, connected_at = Some 0, imap_error_count = 0,
        calls = [Connect Primary, Idle, IdleCheck 15]\<rparr>"
  let ?s0 = "\<lparr>thread_stopped = False, connected_at = Some 0, imap_error_count = 0, calls = []\<rparr>"
  let ?off = "defaults\<lparr>SECONDS_TO_RECONNECT_AFTER := 0\<rparr>"
  have threshold: "0 < SECONDS_TO_RECONNECT_AFTER defaults"
    by (simp add: defaults_def)
  have session: "\<not> at_stop (quiet_session 0 [10, 601])" "at_connect (quiet_session 0 [10, 601]) = Inr ()"
    "\<not> cl_stop (at_client (quiet_session 0 [10, 601]))"
    "cl_idle (at_client (quiet_session 0 [10, 601])) = Inr ()"
    "cl_cycles (at_client (quiet_session 0 [10, 601])) = [quiet_check 10] @ quiet_check 601 # []"
    "cl_idle_done (at_client (quiet_session 0 [10, 601])) \<noteq> Inl KeyboardInterrupt"
    "at_logout (quiet_session 0 [10, 601]) \<noteq> Inl KeyboardInterrupt"
    by (simp_all add: quiet_session_def)
  have start: "\<not> thread_stopped init"
    by (simp add: init_def)
  have before: "idle_while defaults [quiet_check 10]
      (does Idle ((does (Connect Primary) init)
         \<lparr>connected_at := Some (cl_time (at_client (quiet_session 0 [10, 601])))\<rparr>)) = (None, ?s2)"
    by (simp add: idle_cycle_def checked_def idle_loop_def quiet_session_def quiet_check_def
      timeout_def defaults_def init_def controller_def does_def)
  have late: "\<not> cy_stop (quiet_check 601)"
    "SECONDS_TO_RECONNECT_AFTER defaults
       < cy_time (quiet_check 601) - cl_time (at_client (quiet_session 0 [10, 601]))"
    by (simp_all add: quiet_check_def quiet_session_def defaults_def)
  have next_pass: "\<not> at_stop connect_refused"
    by (simp add: connect_refused_def)
  note claim = forced_reconnection [of defaults "quiet_session 0 [10, 601]" init
      "[quiet_check 10]" "quiet_check 601" "[]" ?s2 connect_refused "[]"]
  from claim [THEN conjunct1] threshold session start before late
  have reconnects: "idle_attempt defaults (quiet_session 0 [10, 601]) init =
        (Restart, does (Logout Primary) (does IdleDone ?s2)) \<and>
      imap_error_count (snd (idle_attempt defaults (quiet_session 0 [10, 601]) init)) =
        imap_error_count ?s2 \<and>
      (\<not> at_stop connect_refused \<longrightarrow>
         (\<exists>rest. calls (snd (idle defaults [quiet_session 0 [10, 601], connect_refused] init)) =
            calls ?s2 @ [IdleDone, Logout Primary, Connect Primary] @ rest))"
    by blast
  from reconnects [THEN conjunct1]
  have pass: "idle_attempt defaults (quiet_session 0 [10, 601]) init =
     (Restart, \<lparr>thread_stopped = False, connected_at = Some 0, imap_error_count = 0,
                calls = [Connect Primary, Idle, IdleCheck 15, IdleDone, Logout Primary]\<rparr>)"
    by (simp add: does_def)
  from reconnects [THEN conjunct2, THEN conjunct2] next_pass
  have again: "\<exists>rest. calls (snd (idle defaults [quiet_session 0 [10, 601], connect_refused] init)) =
      [Connect Primary, Idle, IdleCheck 15, IdleDone, Logout Primary, Connect Primary] @ rest"
    by (simp del: idle.simps)
  have off: "SECONDS_TO_RECONNECT_AFTER ?off \<le> 0"
    by simp
  have quiet: "\<not> cy_stop (quiet_check 1000)" "\<not> thread_stopped ?s0"
    by (simp_all add: quiet_check_def)
  from forced_reconnection [of ?off _ _ _ _ _ _ _ _ "quiet_check 1000" ?s0, THEN conjunct2]
    off quiet
  have "idle_cycle ?off (quiet_check 1000) ?s0 = checked ?off (quiet_check 1000) ?s0"
    by blast
  then have stays: "idle_cycle ?off (quiet_check 1000) ?s0 =
     (Continue, \<lparr>thread_stopped = False, connected_at = Some 0, imap_error_count = 0,
                 calls = [IdleCheck 15]\<rparr>)"
    by (simp add: checked_def idle_loop_def quiet_check_def timeout_def defaults_def does_def)
  from threshold late(2) pass again off stays show ?thesis
    by (simp add: quiet_session_def del: idle.simps)
qed

end
